theory Spec2Isabelle
  imports Main
begin

text \<open>
  A model of \<open>Strand.h\<close>, \<open>WorkQueue.h\<close> and \<open>Monitor.h\<close>: any number of threads, any number
  of strands, all bound to one work queue. The threads interleave; a step of a thread is
  what it does up to and including its next access to shared data. All shared data is
  accessed under a mutex (\<open>Monitor::operator()\<close>, the lock of the work queue), so each
  such access is atomic and the interleaving of these steps covers every execution.
\<close>

section \<open>Data model\<close>

text \<open>
  A user closure is identified by a number; what it does when called is given by a table
  \<open>B\<close> from closure identities to the commands of its body, a parameter of the whole
  development. A closure may call \<open>dispatch\<close> and \<open>post\<close> of any strand and \<open>push\<close>, \<open>stop\<close>
  and \<open>run\<close> of the work queue, in any order; it does not throw.
  A \<open>std::function<void()>\<close> is either empty (\<open>None\<close>) or holds a closure.
  Strand instances (the \<open>this\<close> pointers) are numbers as well.
\<close>

type_synonym hid = nat
type_synonym sid = nat
type_synonym handler = "hid option"

text \<open>What user code (a thread's main function or the body of a closure) can call.\<close>

datatype cmd =
    Dispatch sid handler
  | Post sid handler
  | Push handler
  | Stop
  | WqRun

text \<open>
  An item of \<open>WorkQueue::m_q\<close>: a \<open>std::function<void()>\<close> given by the user (the empty
  one is the shutdown marker), or the lambda \<open>[this] { run(); }\<close> that \<open>Strand::post\<close>
  builds; \<open>Strand::run\<close> is private, so user code cannot build the latter.
\<close>

datatype work = Fn handler | DrainTask sid

text \<open>
  The program points of a thread: its continuation is a list of these, the head being
  what it does next. Each one is executed in one atomic step: it holds at most one
  access to shared data (one \<open>Monitor\<close> transaction or one locked section of the
  work queue), together with thread-local work around it.
  \<^item> \<open>Cmd a\<close>: user code calls \<open>a\<close>.
  \<^item> \<open>Invoke s h\<close>: code of strand \<open>s\<close> calls \<open>handler()\<close> (\<open>Strand.h\<close>, in both branches of
    \<open>dispatch\<close> and in \<open>run\<close>); \<open>Ret s\<close>: that call returns.
  \<^item> \<open>Run s\<close>: \<open>Strand::run\<close> of \<open>s\<close> is called; \<open>RunLoop s\<close>: the head of its loop.
  \<^item> \<open>LeaveStrand\<close>, \<open>LeaveWq\<close>: the destructor of a \<open>Callstack<Strand>::Context\<close>, of a
    \<open>Callstack<WorkQueue>::Context\<close>.
  \<^item> \<open>WqLoop\<close>: the head of the loop of \<open>WorkQueue::run\<close>.
  \<^item> \<open>ProcPush w\<close>: library code calls \<open>push(w)\<close> of the work queue (\<open>post\<close> with the drain
    task, \<open>WorkQueue::run\<close> with the empty item).
\<close>

datatype instr =
    Cmd cmd
  | Invoke sid handler
  | Ret sid
  | Run sid
  | RunLoop sid
  | LeaveStrand
  | WqLoop
  | LeaveWq
  | ProcPush work

text \<open>\<open>Strand::Data\<close>.\<close>

record Data =
  running :: bool
  q :: "handler list"

text \<open>
  A thread: its continuation and its two thread-local call stacks,
  \<open>Callstack<Strand>\<close> and \<open>Callstack<WorkQueue>\<close>.
\<close>

record thread =
  cont :: "instr list"
  strand_ctx :: "sid list"
  wq_ctx :: "nat list"

text \<open>The data all threads share: every strand's \<open>m_data\<close> and the work queue's \<open>m_q\<close>.\<close>

record shared =
  m_data :: "sid \<Rightarrow> Data"
  m_q :: "work list"

record state =
  sh :: shared
  threads :: "thread list"

text \<open>
  What ends the process: a failed \<open>assert\<close>, and the exception of a call of an empty
  \<open>std::function\<close>, which nothing in the model catches.
\<close>

datatype error = AssertFailed | BadFunctionCall

text \<open>
  The outcome of a step: the next state, or the thread waits on the condition variable,
  or it has nothing left to do, or the process is aborted.
\<close>

datatype 'a outcome = Next 'a | Blocked | Finished | Abort error

section \<open>Callstack\<close>

text \<open>
  \<open>Callstack.h\<close> is not among the sources; \<open>Strand.h\<close> and \<open>WorkQueue.h\<close> use its
  \<open>Callstack<T>::Context\<close> and \<open>Callstack<T>::contains\<close>. The spec describes it as a
  per-thread, per-tag stack of instance identities. Each thread of the model carries one
  stack for the tag \<open>Strand\<close> and one for the tag \<open>WorkQueue\<close>.
\<close>

text \<open>
  Modelled from the spec: the constructor of \<open>Callstack<T>::Context\<close>, missing with
  \<open>Callstack.h\<close>. A scoped guard pushes an identity onto the calling thread's stack on
  entry.
\<close>

definition Callstack_enter :: "nat \<Rightarrow> nat list \<Rightarrow> nat list" where
  "Callstack_enter x stk = x # stk"

text \<open>
  Modelled from the spec: the destructor of \<open>Callstack<T>::Context\<close>, missing with
  \<open>Callstack.h\<close>. The guard pops on scope exit, in reverse order of entry.
\<close>

definition Callstack_exit :: "nat list \<Rightarrow> nat list" where
  "Callstack_exit stk = (case stk of [] \<Rightarrow> [] | _ # r \<Rightarrow> r)"

text \<open>
  Modelled from the spec: \<open>Callstack<T>::contains\<close>, missing with \<open>Callstack.h\<close>. True if
  and only if the identity is anywhere in the current thread's stack for the tag.
\<close>

definition Callstack_contains :: "nat \<Rightarrow> nat list \<Rightarrow> bool" where
  "Callstack_contains x stk = (x \<in> set stk)"

section \<open>WorkQueue\<close>

text \<open>The one work queue the strands are bound to.\<close>

definition the_wq :: nat where
  "the_wq = 0"

text \<open>\<open>WorkQueue::push\<close>: one locked section. Waking the waiting threads is left to the
  interleaving: a thread at the head of the loop of \<open>run\<close> can step whenever the queue is
  not empty.\<close>

definition push :: "work \<Rightarrow> shared \<Rightarrow> shared" where
  "push w s = s\<lparr>m_q := m_q s @ [w]\<rparr>"

text \<open>\<open>WorkQueue::canDispatch\<close>.\<close>

definition canDispatch :: "thread \<Rightarrow> bool" where
  "canDispatch thr = Callstack_contains the_wq (wq_ctx thr)"

section \<open>Strand\<close>

text \<open>\<open>Strand::runningInThisThread\<close>.\<close>

definition runningInThisThread :: "sid \<Rightarrow> thread \<Rightarrow> bool" where
  "runningInThisThread s thr = Callstack_contains s (strand_ctx thr)"

text \<open>
  The three lambdas given to the \<open>Monitor\<close>. \<open>Monitor::operator()\<close> runs its argument on
  the data under the lock and returns its result, so a transaction is a function from
  the data to the result and the new data.
\<close>

definition dispatch_txn :: "handler \<Rightarrow> Data \<Rightarrow> bool \<times> Data" where
  "dispatch_txn h d =
     (if running d then (False, d\<lparr>q := q d @ [h]\<rparr>)
      else (True, d\<lparr>running := True\<rparr>))"

definition post_txn :: "handler \<Rightarrow> Data \<Rightarrow> bool \<times> Data" where
  "post_txn h d =
     (let d1 = d\<lparr>q := q d @ [h]\<rparr> in
      if running d1 then (False, d1) else (True, d1\<lparr>running := True\<rparr>))"

text \<open>
  The transaction of \<open>Strand::run\<close>. Its result is the local variable \<open>handler\<close>, which
  starts empty. A failed \<open>assert\<close> aborts the process.
\<close>

definition run_txn :: "Data \<Rightarrow> error + (handler \<times> Data)" where
  "run_txn d =
     (if \<not> running d then Inl AssertFailed
      else (case q d of
              h # rest \<Rightarrow> Inr (h, d\<lparr>q := rest\<rparr>)
            | [] \<Rightarrow> Inr (None, d\<lparr>running := False\<rparr>)))"

definition set_data :: "sid \<Rightarrow> Data \<Rightarrow> shared \<Rightarrow> shared" where
  "set_data s d x = x\<lparr>m_data := (m_data x)(s := d)\<rparr>"

section \<open>One step of a thread\<close>

text \<open>
  \<open>Strand::dispatch\<close>, \<open>Strand::post\<close>, \<open>WorkQueue::push\<close> called by user code,
  \<open>WorkQueue::stop\<close> and the entry of \<open>WorkQueue::run\<close>. The two tests at the start of
  \<open>dispatch\<close> read thread-local data only, and so does what follows the transaction
  (\<open>if (trigger)\<close> and the construction of the \<open>Context\<close>).
\<close>

fun exec_cmd ::
  "(hid \<Rightarrow> cmd list) \<Rightarrow> cmd \<Rightarrow> instr list \<Rightarrow> thread \<Rightarrow> shared \<Rightarrow> (thread \<times> shared) outcome"
where
  "exec_cmd B (Dispatch s h) c thr x =
     (if \<not> canDispatch thr then Next (thr\<lparr>cont := Cmd (Post s h) # c\<rparr>, x)
      else if runningInThisThread s thr then Next (thr\<lparr>cont := Invoke s h # c\<rparr>, x)
      else (case dispatch_txn h (m_data x s) of
              (trigger, d) \<Rightarrow>
                if trigger
                then Next (thr\<lparr>cont := Invoke s h # Run s # LeaveStrand # c,
                                strand_ctx := Callstack_enter s (strand_ctx thr)\<rparr>,
                           set_data s d x)
                else Next (thr\<lparr>cont := c\<rparr>, set_data s d x)))"
| "exec_cmd B (Post s h) c thr x =
     (case post_txn h (m_data x s) of
        (trigger, d) \<Rightarrow>
          if trigger then Next (thr\<lparr>cont := ProcPush (DrainTask s) # c\<rparr>, set_data s d x)
          else Next (thr\<lparr>cont := c\<rparr>, set_data s d x))"
| "exec_cmd B (Push h) c thr x = Next (thr\<lparr>cont := c\<rparr>, push (Fn h) x)"
| "exec_cmd B Stop c thr x = Next (thr\<lparr>cont := c\<rparr>, push (Fn None) x)"
| "exec_cmd B WqRun c thr x =
     Next (thr\<lparr>cont := WqLoop # LeaveWq # c,
                wq_ctx := Callstack_enter the_wq (wq_ctx thr)\<rparr>, x)"

text \<open>
  The other program points. The loop of \<open>Strand::run\<close> does its transaction and then
  tests the local \<open>handler\<close>: it calls it and loops, or returns. The loop of
  \<open>WorkQueue::run\<close> waits while the queue is empty, pops the front item and tests it: it
  calls it and loops, or pushes an empty item and returns.
\<close>

fun exec_instr ::
  "(hid \<Rightarrow> cmd list) \<Rightarrow> instr \<Rightarrow> instr list \<Rightarrow> thread \<Rightarrow> shared \<Rightarrow> (thread \<times> shared) outcome"
where
  "exec_instr B (Cmd a) c thr x = exec_cmd B a c thr x"
| "exec_instr B (Invoke s None) c thr x = Abort BadFunctionCall"
| "exec_instr B (Invoke s (Some f)) c thr x =
     Next (thr\<lparr>cont := map Cmd (B f) @ Ret s # c\<rparr>, x)"
| "exec_instr B (Ret s) c thr x = Next (thr\<lparr>cont := c\<rparr>, x)"
| "exec_instr B (Run s) c thr x =
     Next (thr\<lparr>cont := RunLoop s # LeaveStrand # c,
                strand_ctx := Callstack_enter s (strand_ctx thr)\<rparr>, x)"
| "exec_instr B (RunLoop s) c thr x =
     (case run_txn (m_data x s) of
        Inl e \<Rightarrow> Abort e
      | Inr (h, d) \<Rightarrow>
          (case h of
             Some f \<Rightarrow> Next (thr\<lparr>cont := Invoke s h # RunLoop s # c\<rparr>, set_data s d x)
           | None \<Rightarrow> Next (thr\<lparr>cont := c\<rparr>, set_data s d x)))"
| "exec_instr B LeaveStrand c thr x =
     Next (thr\<lparr>cont := c, strand_ctx := Callstack_exit (strand_ctx thr)\<rparr>, x)"
| "exec_instr B WqLoop c thr x =
     (case m_q x of
        [] \<Rightarrow> Blocked
      | w # ws \<Rightarrow>
          (case w of
             Fn None \<Rightarrow> Next (thr\<lparr>cont := ProcPush (Fn None) # c\<rparr>, x\<lparr>m_q := ws\<rparr>)
           | Fn (Some f) \<Rightarrow> Next (thr\<lparr>cont := map Cmd (B f) @ WqLoop # c\<rparr>, x\<lparr>m_q := ws\<rparr>)
           | DrainTask s \<Rightarrow> Next (thr\<lparr>cont := Run s # WqLoop # c\<rparr>, x\<lparr>m_q := ws\<rparr>)))"
| "exec_instr B LeaveWq c thr x =
     Next (thr\<lparr>cont := c, wq_ctx := Callstack_exit (wq_ctx thr)\<rparr>, x)"
| "exec_instr B (ProcPush w) c thr x = Next (thr\<lparr>cont := c\<rparr>, push w x)"

definition exec :: "(hid \<Rightarrow> cmd list) \<Rightarrow> thread \<Rightarrow> shared \<Rightarrow> (thread \<times> shared) outcome" where
  "exec B thr x =
     (case cont thr of
        [] \<Rightarrow> Finished
      | i # c \<Rightarrow> exec_instr B i c thr x)"

definition step :: "(hid \<Rightarrow> cmd list) \<Rightarrow> nat \<Rightarrow> state \<Rightarrow> state outcome" where
  "step B t st =
     (if t < length (threads st)
      then map_outcome (\<lambda>(thr, x). \<lparr>sh = x, threads = (threads st)[t := thr]\<rparr>)
             (exec B (threads st ! t) (sh st))
      else Finished)"

section \<open>Runs\<close>

text \<open>A \<open>Strand::Data\<close> as its member initialisers construct it.\<close>

definition idle :: Data where
  "idle = \<lparr>running = False, q = []\<rparr>"

fun is_Cmd :: "instr \<Rightarrow> bool" where
  "is_Cmd (Cmd a) = True"
| "is_Cmd _ = False"

text \<open>
  At the start every strand is as constructed, the work queue is empty, and every thread
  is about to run user code with empty call stacks.
\<close>

definition fresh :: "thread \<Rightarrow> bool" where
  "fresh thr = (list_all is_Cmd (cont thr) \<and> strand_ctx thr = [] \<and> wq_ctx thr = [])"

definition initial :: "state \<Rightarrow> bool" where
  "initial st =
     (m_q (sh st) = [] \<and> list_all fresh (threads st) \<and> (\<forall>s. m_data (sh st) s = idle))"

text \<open>Any thread that can step may take the next step.\<close>

inductive reaches :: "(hid \<Rightarrow> cmd list) \<Rightarrow> state \<Rightarrow> state \<Rightarrow> bool" for B where
  here: "reaches B st st"
| later: "reaches B st st1 \<Longrightarrow> step B t st1 = Next st2 \<Longrightarrow> reaches B st st2"

definition reachable :: "(hid \<Rightarrow> cmd list) \<Rightarrow> state \<Rightarrow> bool" where
  "reachable B st = (\<exists>st0. initial st0 \<and> reaches B st0 st)"


text \<open>Running a schedule: the threads named take one step each, in this order; the run
  stops at the first step that does not go through.\<close>

fun run :: "(hid \<Rightarrow> cmd list) \<Rightarrow> nat list \<Rightarrow> state \<Rightarrow> state" where
  "run B [] st = st"
| "run B (t # ts) st = (case step B t st of Next st1 \<Rightarrow> run B ts st1 | _ \<Rightarrow> st)"

section \<open>Ownership\<close>

text \<open>
  A thread is executing a handler of strand \<open>s\<close> when strand code has called, or is about
  to call, \<open>handler()\<close> and the call has not returned.
\<close>

fun runs_handler :: "sid \<Rightarrow> instr \<Rightarrow> bool" where
  "runs_handler s (Invoke s' h) = (s = s')"
| "runs_handler s (Ret s') = (s = s')"
| "runs_handler s _ = False"

definition executing :: "sid \<Rightarrow> thread \<Rightarrow> bool" where
  "executing s thr = list_ex (runs_handler s) (cont thr)"

text \<open>
  A thread holds strand \<open>s\<close> when it is inside \<open>Strand::run\<close> of \<open>s\<close> or has a call of it
  pending (after its \<open>dispatch\<close> has set the flag). The right to drain \<open>s\<close> is carried by
  such a thread, by a thread about to push the drain task of \<open>s\<close>, or by a drain task waiting
  in the work queue.
\<close>

fun holds :: "sid \<Rightarrow> instr \<Rightarrow> bool" where
  "holds s (Run s') = (s = s')"
| "holds s (RunLoop s') = (s = s')"
| "holds s _ = False"

fun carries :: "sid \<Rightarrow> instr \<Rightarrow> bool" where
  "carries s (ProcPush w) = (w = DrainTask s)"
| "carries s i = holds s i"

definition owns :: "sid \<Rightarrow> instr list \<Rightarrow> bool" where
  "owns s c = list_ex (holds s) c"

definition tokens_cont :: "sid \<Rightarrow> instr list \<Rightarrow> nat" where
  "tokens_cont s c = length (filter (carries s) c)"

definition tokens :: "sid \<Rightarrow> state \<Rightarrow> nat" where
  "tokens s st =
     sum_list (map (\<lambda>thr. tokens_cont s (cont thr)) (threads st))
       + count_list (m_q (sh st)) (DrainTask s)"

definition credit :: "Data \<Rightarrow> nat" where
  "credit d = (if running d then 1 else 0)"

text \<open>The two shapes of \<open>Strand::Data\<close>.\<close>

definition is_Idle :: "Data \<Rightarrow> bool" where
  "is_Idle d = (\<not> running d \<and> q d = [])"

definition is_Owned :: "Data \<Rightarrow> bool" where
  "is_Owned d = running d"

definition data_ok :: "Data \<Rightarrow> bool" where
  "data_ok d = (is_Idle d \<or> is_Owned d)"

text \<open>
  Whatever a continuation still runs inside a strand's call context, or as a handler of
  a strand, has that strand held further down the same continuation. The first argument
  is the thread's \<open>Callstack<Strand>\<close> at the head of the continuation.
\<close>

fun wf :: "sid list \<Rightarrow> instr list \<Rightarrow> bool" where
  "wf stk [] = True"
| "wf stk (Cmd a # c) = (list_all (\<lambda>s. owns s c) stk \<and> wf stk c)"
| "wf stk (Invoke s h # c) = (owns s c \<and> list_all (\<lambda>s. owns s c) stk \<and> wf stk c)"
| "wf stk (Ret s # c) = (owns s c \<and> wf stk c)"
| "wf stk (Run s # c) = (list_all (\<lambda>s'. s' = s \<or> owns s' c) stk \<and> wf stk c)"
| "wf stk (RunLoop s # c) = (list_all (\<lambda>s'. s' = s \<or> owns s' c) stk \<and> wf stk c)"
| "wf stk (LeaveStrand # c) = wf (Callstack_exit stk) c"
| "wf stk (WqLoop # c) = (list_all (\<lambda>s. owns s c) stk \<and> wf stk c)"
| "wf stk (LeaveWq # c) = wf stk c"
| "wf stk (ProcPush w # c) = wf stk c"

text \<open>
  A strand's call context is only ever entered inside the work queue's: wherever user
  code or a handler runs with a strand on \<open>Callstack<Strand>\<close>, the work queue is on
  \<open>Callstack<WorkQueue>\<close>.
\<close>

fun ctx_ok :: "sid list \<Rightarrow> nat list \<Rightarrow> instr list \<Rightarrow> bool" where
  "ctx_ok ss ws [] = True"
| "ctx_ok ss ws (LeaveStrand # c) = ctx_ok (Callstack_exit ss) ws c"
| "ctx_ok ss ws (LeaveWq # c) = ctx_ok ss (Callstack_exit ws) c"
| "ctx_ok ss ws (Run s # c) = (Callstack_contains the_wq ws \<and> ctx_ok ss ws c)"
| "ctx_ok ss ws (WqLoop # c) = (Callstack_contains the_wq ws \<and> ctx_ok ss ws c)"
| "ctx_ok ss ws (i # c) = ((ss = [] \<or> Callstack_contains the_wq ws) \<and> ctx_ok ss ws c)"

text \<open>
  A handler of a strand runs, and the loop of the strand's \<open>run\<close> goes round, with the
  strand on \<open>Callstack<Strand>\<close>.
\<close>

fun in_ctx :: "sid list \<Rightarrow> instr list \<Rightarrow> bool" where
  "in_ctx ss [] = True"
| "in_ctx ss (LeaveStrand # c) = in_ctx (Callstack_exit ss) c"
| "in_ctx ss (Invoke s h # c) = (Callstack_contains s ss \<and> in_ctx ss c)"
| "in_ctx ss (Ret s # c) = (Callstack_contains s ss \<and> in_ctx ss c)"
| "in_ctx ss (RunLoop s # c) = (Callstack_contains s ss \<and> in_ctx ss c)"
| "in_ctx ss (i # c) = in_ctx ss c"

definition thread_ok :: "thread \<Rightarrow> bool" where
  "thread_ok thr =
     (wf (strand_ctx thr) (cont thr) \<and>
      ctx_ok (strand_ctx thr) (wq_ctx thr) (cont thr) \<and>
      in_ctx (strand_ctx thr) (cont thr))"

definition invariant :: "state \<Rightarrow> bool" where
  "invariant st =
     ((\<forall>s. tokens s st \<le> credit (m_data (sh st) s)) \<and>
      list_all thread_ok (threads st) \<and>
      (\<forall>s. data_ok (m_data (sh st) s)))"


section \<open>Example runs\<close>

text \<open>
  Closure 2 dispatches closure 3 to strand 0; every other closure has an empty body.
\<close>

definition B_ex :: "hid \<Rightarrow> cmd list" where
  "B_ex f = (if f = 2 then [Dispatch 0 (Some 3)] else [])"

text \<open>A worker thread calls \<open>WorkQueue::run\<close>; a client thread runs the commands given.\<close>

definition worker :: thread where
  "worker = \<lparr>cont = [Cmd WqRun], strand_ctx = [], wq_ctx = []\<rparr>"

definition client :: "cmd list \<Rightarrow> thread" where
  "client cs = \<lparr>cont = map Cmd cs, strand_ctx = [], wq_ctx = []\<rparr>"

definition start :: "thread list \<Rightarrow> state" where
  "start ths = \<lparr>sh = \<lparr>m_data = \<lambda>_. idle, m_q = []\<rparr>, threads = ths\<rparr>"

text \<open>One worker, and a client that posts closure 2 to strand 0 and stops the queue.\<close>

definition ex1 :: state where
  "ex1 = start [worker, client [Post 0 (Some 2), Stop]]"

text \<open>After the client's post.\<close>

definition posted_ex :: state where
  "posted_ex = run B_ex [1] ex1"

text \<open>The worker has taken the drain task and is inside closure 2, about to dispatch.\<close>

definition in_handler_ex :: state where
  "in_handler_ex = run B_ex [1, 1, 0, 0, 0, 0, 0] ex1"

text \<open>A worker about to dispatch closure 3 to strand 0, which is idle.\<close>

definition at_dispatch_ex :: state where
  "at_dispatch_ex =
     \<lparr>sh = \<lparr>m_data = \<lambda>_. idle, m_q = []\<rparr>,
      threads = [\<lparr>cont = [Cmd (Dispatch 0 (Some 3)), WqLoop, LeaveWq],
                  strand_ctx = [], wq_ctx = [the_wq]\<rparr>]\<rparr>"

text \<open>The same, strand 0 being owned by someone else.\<close>

definition at_dispatch_busy_ex :: state where
  "at_dispatch_busy_ex =
     \<lparr>sh = \<lparr>m_data = (\<lambda>_. idle)(0 := \<lparr>running = True, q = [Some 2]\<rparr>), m_q = []\<rparr>,
      threads = [\<lparr>cont = [Cmd (Dispatch 0 (Some 3)), WqLoop, LeaveWq],
                  strand_ctx = [], wq_ctx = [the_wq]\<rparr>]\<rparr>"

text \<open>A client about to post closure 2 to strand 0, which is idle.\<close>

definition at_post_ex :: state where
  "at_post_ex = start [client [Post 0 (Some 2), Stop]]"

text \<open>A client, outside the work queue, about to dispatch closure 2 to strand 0.\<close>

definition at_dispatch_outside_ex :: state where
  "at_dispatch_outside_ex = start [client [Dispatch 0 (Some 2), Stop]]"



text \<open>The worker of \<open>ex1\<close> has entered \<open>Strand::run\<close> of strand 0 and is at the head of
  its loop.\<close>

definition draining_ex :: state where
  "draining_ex = run B_ex [1, 1, 0, 0, 0] ex1"

text \<open>A state no run reaches: a thread in the loop of \<open>Strand::run\<close> of an idle strand.\<close>

definition broken_ex :: state where
  "broken_ex =
     \<lparr>sh = \<lparr>m_data = \<lambda>_. idle, m_q = []\<rparr>,
      threads = [\<lparr>cont = [RunLoop 0, LeaveStrand, WqLoop, LeaveWq],
                  strand_ctx = [0], wq_ctx = [the_wq]\<rparr>]\<rparr>"

text \<open>One worker, and a client that posts an empty function and then closure 2 to
  strand 0.\<close>

definition ex2 :: state where
  "ex2 = start [worker, client [Post 0 None, Post 0 (Some 2)]]"

text \<open>Both posts are done; the worker has taken the drain task and is at the head of the
  loop of \<open>Strand::run\<close>, the empty function at the front of the queue.\<close>

definition null_front_ex :: state where
  "null_front_ex = run B_ex [1, 1, 1, 0, 0, 0] ex2"

text \<open>The worker has taken its step there: \<open>Strand::run\<close> has returned.\<close>

definition stuck_ex :: state where
  "stuck_ex = run B_ex [0] null_front_ex"

text \<open>The worker has left the strand's call context and is back in the loop of
  \<open>WorkQueue::run\<close>.\<close>

definition after_stuck_ex :: state where
  "after_stuck_ex = run B_ex [0] stuck_ex"

text \<open>A strand is stuck when its flag is set and nobody has the right to drain it.\<close>

definition stuck :: "sid \<Rightarrow> state \<Rightarrow> bool" where
  "stuck s st = (invariant st \<and> running (m_data (sh st) s) \<and> tokens s st = 0)"

text \<open>The worker of \<open>ex1\<close> has run closure 2 and closure 3 and is back at the head of the
  loop of \<open>Strand::run\<close>, the queue being empty.\<close>

definition drained_ex :: state where
  "drained_ex = run B_ex [1, 1, 0, 0, 0, 0, 0, 0, 0, 0, 0] ex1"

text \<open>The same client, strand 0 being owned by someone else with closure 3 queued.\<close>

definition at_dispatch_outside_busy_ex :: state where
  "at_dispatch_outside_busy_ex =
     \<lparr>sh = \<lparr>m_data = (\<lambda>_. idle)(0 := \<lparr>running = True, q = [Some 3]\<rparr>), m_q = []\<rparr>,
      threads = [client [Dispatch 0 (Some 2), Stop]]\<rparr>"

text \<open>
  Closure 4 dispatches closure 5 to strand 0; closure 5 posts an empty function and then
  closure 6 to strand 0; every other closure has an empty body.
\<close>

definition B_ex2 :: "hid \<Rightarrow> cmd list" where
  "B_ex2 f =
     (if f = 4 then [Dispatch 0 (Some 5)]
      else if f = 5 then [Post 0 None, Post 0 (Some 6)]
      else [])"

text \<open>One worker, and a client that pushes closure 4 onto the work queue.\<close>

definition ex3 :: state where
  "ex3 = start [worker, client [Push (Some 4)]]"

text \<open>The worker has taken closure 4 from the work queue and is about to dispatch
  closure 5 to strand 0, which is idle.\<close>

definition at_claim_ex :: state where
  "at_claim_ex = run B_ex2 [1, 0, 0] ex3"

text \<open>The worker has gone through the whole of that \<open>dispatch\<close>: the claim, closure 5,
  \<open>Strand::run\<close> and the exit of both call contexts.\<close>

definition returned_ex :: state where
  "returned_ex = run B_ex2 [0, 0, 0, 0, 0, 0, 0, 0, 0] at_claim_ex"

section \<open>Basic facts\<close>

lemma Callstack_exit_simps [simp]:
  "Callstack_exit [] = []" "Callstack_exit (a # stk) = stk"
  by (simp_all add: Callstack_exit_def)

lemma owns_simps [simp]:
  "owns s [] = False"
  "owns s (i # c) = (holds s i \<or> owns s c)"
  "owns s (c1 @ c2) = (owns s c1 \<or> owns s c2)"
  by (auto simp: owns_def list_ex_iff)

lemma owns_map_Cmd [simp]: "owns s (map Cmd bs) = False"
  by (induction bs) auto

lemma tokens_cont_simps [simp]:
  "tokens_cont s [] = 0"
  "tokens_cont s (i # c) = (if carries s i then 1 else 0) + tokens_cont s c"
  "tokens_cont s (c1 @ c2) = tokens_cont s c1 + tokens_cont s c2"
  by (auto simp: tokens_cont_def)

lemma tokens_cont_map_Cmd [simp]: "tokens_cont s (map Cmd bs) = 0"
  by (induction bs) auto

lemma owns_tokens_cont: "owns s c \<Longrightarrow> 1 \<le> tokens_cont s c"
proof (induction c)
  case Nil
  then show ?case by simp
next
  case (Cons i c)
  then show ?case by (cases i) auto
qed

lemma count_list_append [simp]:
  "count_list (xs @ ys) a = count_list xs a + count_list ys a"
  by (induction xs) auto

lemma wf_body:
  "list_all (\<lambda>s. owns s c) stk \<Longrightarrow> wf stk c \<Longrightarrow> wf stk (map Cmd bs @ c)"
  by (induction bs) (auto simp: list_all_iff)

lemma ctx_ok_body:
  "ss = [] \<or> Callstack_contains the_wq ws \<Longrightarrow> ctx_ok ss ws c \<Longrightarrow>
   ctx_ok ss ws (map Cmd bs @ c)"
  by (induction bs) auto

lemma in_ctx_body: "in_ctx ss c \<Longrightarrow> in_ctx ss (map Cmd bs @ c)"
  by (induction bs) auto

lemma in_ctx_fresh: "list_all is_Cmd c \<Longrightarrow> in_ctx [] c"
proof (induction c)
  case Nil
  then show ?case by simp
next
  case (Cons i c)
  then show ?case by (cases i) auto
qed

lemma Callstack_exit_subset: "x \<in> set (Callstack_exit stk) \<Longrightarrow> x \<in> set stk"
  by (cases stk) auto

lemma in_ctx_executing:
  "in_ctx ss c \<Longrightarrow> list_ex (runs_handler s) c \<Longrightarrow> Callstack_contains s ss"
proof (induction ss c rule: in_ctx.induct)
  case (1 ss)
  then show ?case by simp
next
  case (2 ss c)
  then show ?case
    by (auto simp: Callstack_contains_def dest: Callstack_exit_subset)
qed auto

lemma wf_executing: "wf stk c \<Longrightarrow> list_ex (runs_handler s) c \<Longrightarrow> owns s c"
proof (induction stk c rule: wf.induct)
  case (1 stk)
  then show ?case by simp
qed auto

lemma wf_fresh: "list_all is_Cmd c \<Longrightarrow> wf [] c"
proof (induction c)
  case Nil
  then show ?case by simp
next
  case (Cons i c)
  then show ?case by (cases i) auto
qed

lemma ctx_ok_fresh: "list_all is_Cmd c \<Longrightarrow> ctx_ok [] [] c"
proof (induction c)
  case Nil
  then show ?case by simp
next
  case (Cons i c)
  then show ?case by (cases i) auto
qed

lemma tokens_cont_fresh: "list_all is_Cmd c \<Longrightarrow> tokens_cont s c = 0"
proof (induction c)
  case Nil
  then show ?case by simp
next
  case (Cons i c)
  then show ?case by (cases i) auto
qed

lemma sum_list_map_update:
  "t < length xs \<Longrightarrow>
   sum_list (map f (xs[t := y])) + f (xs ! t) = sum_list (map f xs) + (f y :: nat)"
  by (induction xs arbitrary: t) (auto split: nat.splits)

lemma sum_list_map_two:
  "i < length xs \<Longrightarrow> j < length xs \<Longrightarrow> i \<noteq> j \<Longrightarrow>
   f (xs ! i) + f (xs ! j) \<le> sum_list (map f xs :: nat list)"
proof (induction xs arbitrary: i j)
  case Nil
  then show ?case by simp
next
  case (Cons a xs)
  have one: "k < length xs \<Longrightarrow> f (xs ! k) \<le> sum_list (map f xs)" for k
    by (simp add: member_le_sum_list)
  show ?case
  proof (cases i)
    case 0
    with Cons.prems obtain j' where "j = Suc j'" by (cases j) auto
    with 0 Cons.prems one [of j'] show ?thesis by simp
  next
    case (Suc i')
    show ?thesis
    proof (cases j)
      case 0
      with Suc Cons.prems one [of i'] show ?thesis by simp
    next
      case (Suc j')
      with \<open>i = Suc i'\<close> Cons.prems Cons.IH [of i' j'] show ?thesis by simp
    qed
  qed
qed

section \<open>What one step of a thread preserves\<close>

lemma exec_wf:
  assumes "exec B thr x = Next (thr', x')" "wf (strand_ctx thr) (cont thr)"
  shows "wf (strand_ctx thr') (cont thr')"
proof (cases "cont thr")
  case Nil
  with assms show ?thesis by (simp add: exec_def)
next
  case (Cons i c)
  show ?thesis
  proof (cases i)
    case (Cmd a)
    with Cons assms show ?thesis
      by (cases a)
         (auto simp: exec_def Callstack_enter_def runningInThisThread_def
            Callstack_contains_def list_all_iff dispatch_txn_def post_txn_def Let_def
            split: if_splits prod.splits)
  next
    case (Invoke s h)
    with Cons assms show ?thesis
      by (cases h) (auto simp: exec_def list_all_iff intro!: wf_body)
  next
    case (RunLoop s)
    with Cons assms show ?thesis
      by (auto simp: exec_def list_all_iff split: sum.splits prod.splits option.splits)
  next
    case WqLoop
    with Cons assms show ?thesis
      by (auto simp: exec_def list_all_iff intro!: wf_body
          split: list.splits work.splits option.splits)
  qed (use Cons assms in \<open>auto simp: exec_def Callstack_enter_def list_all_iff\<close>)
qed

lemma exec_ctx_ok:
  assumes "exec B thr x = Next (thr', x')" "ctx_ok (strand_ctx thr) (wq_ctx thr) (cont thr)"
  shows "ctx_ok (strand_ctx thr') (wq_ctx thr') (cont thr')"
proof (cases "cont thr")
  case Nil
  with assms show ?thesis by (simp add: exec_def)
next
  case (Cons i c)
  show ?thesis
  proof (cases i)
    case (Cmd a)
    with Cons assms show ?thesis
      by (cases a)
         (auto simp: exec_def Callstack_enter_def canDispatch_def
            Callstack_contains_def dispatch_txn_def post_txn_def Let_def
            split: if_splits prod.splits)
  next
    case (Invoke s h)
    with Cons assms show ?thesis
      by (cases h) (auto simp: exec_def intro!: ctx_ok_body)
  next
    case (RunLoop s)
    with Cons assms show ?thesis
      by (auto simp: exec_def split: sum.splits prod.splits option.splits)
  next
    case WqLoop
    with Cons assms show ?thesis
      by (auto simp: exec_def intro!: ctx_ok_body
          split: list.splits work.splits option.splits)
  qed (use Cons assms in \<open>auto simp: exec_def Callstack_enter_def\<close>)
qed

lemma exec_in_ctx:
  assumes "exec B thr x = Next (thr', x')" "in_ctx (strand_ctx thr) (cont thr)"
  shows "in_ctx (strand_ctx thr') (cont thr')"
proof (cases "cont thr")
  case Nil
  with assms show ?thesis by (simp add: exec_def)
next
  case (Cons i c)
  show ?thesis
  proof (cases i)
    case (Cmd a)
    with Cons assms show ?thesis
      by (cases a)
         (auto simp: exec_def Callstack_enter_def runningInThisThread_def
            Callstack_contains_def dispatch_txn_def post_txn_def Let_def
            split: if_splits prod.splits)
  next
    case (Invoke s h)
    with Cons assms show ?thesis
      by (cases h) (auto simp: exec_def intro!: in_ctx_body)
  next
    case (RunLoop s)
    with Cons assms show ?thesis
      by (auto simp: exec_def split: sum.splits prod.splits option.splits)
  next
    case WqLoop
    with Cons assms show ?thesis
      by (auto simp: exec_def intro!: in_ctx_body
          split: list.splits work.splits option.splits)
  qed (use Cons assms in \<open>auto simp: exec_def Callstack_enter_def Callstack_contains_def\<close>)
qed

lemma exec_thread_ok:
  "exec B thr x = Next (thr', x') \<Longrightarrow> thread_ok thr \<Longrightarrow> thread_ok thr'"
  by (simp add: thread_ok_def exec_wf exec_ctx_ok exec_in_ctx)

text \<open>
  The flag pays for the right to drain: a step that creates the right sets the flag, a
  step that clears the flag gives the right up.
\<close>

lemma exec_tokens:
  assumes "exec B thr x = Next (thr', x')"
  shows "tokens_cont s (cont thr') + count_list (m_q x') (DrainTask s) + credit (m_data x s)
         \<le> tokens_cont s (cont thr) + count_list (m_q x) (DrainTask s) + credit (m_data x' s)"
proof (cases "cont thr")
  case Nil
  with assms show ?thesis by (simp add: exec_def)
next
  case (Cons i c)
  show ?thesis
  proof (cases i)
    case (Cmd a)
    with Cons assms show ?thesis
      by (cases a)
         (auto simp: exec_def credit_def set_data_def push_def dispatch_txn_def post_txn_def
            Let_def split: if_splits prod.splits)
  next
    case (Invoke s' h)
    with Cons assms show ?thesis
      by (cases h) (auto simp: exec_def)
  next
    case (RunLoop s')
    with Cons assms show ?thesis
      by (auto simp: exec_def credit_def set_data_def run_txn_def
          split: sum.splits prod.splits option.splits if_splits list.splits)
  next
    case WqLoop
    with Cons assms show ?thesis
      by (auto simp: exec_def split: list.splits work.splits option.splits)
  next
    case (ProcPush w)
    with Cons assms show ?thesis
      by (auto simp: exec_def push_def)
  qed (use Cons assms in \<open>auto simp: exec_def\<close>)
qed

lemma txn_data_ok:
  "data_ok d \<Longrightarrow> data_ok (snd (dispatch_txn h d))"
  "data_ok d \<Longrightarrow> data_ok (snd (post_txn h d))"
  "data_ok d \<Longrightarrow> run_txn d = Inr (r, d') \<Longrightarrow> data_ok d'"
  by (auto simp: data_ok_def is_Idle_def is_Owned_def dispatch_txn_def post_txn_def
      run_txn_def Let_def split: if_splits list.splits)

lemma exec_data_ok:
  assumes "exec B thr x = Next (thr', x')" "data_ok (m_data x s)"
  shows "data_ok (m_data x' s)"
proof (cases "cont thr")
  case Nil
  with assms show ?thesis by (simp add: exec_def)
next
  case (Cons i c)
  show ?thesis
  proof (cases i)
    case (Cmd a)
    show ?thesis
    proof (cases a)
      case (Dispatch s' h)
      with Cmd Cons assms txn_data_ok(1) [of "m_data x s" h] show ?thesis
        by (auto simp: exec_def set_data_def split: if_splits prod.splits)
    next
      case (Post s' h)
      with Cmd Cons assms txn_data_ok(2) [of "m_data x s" h] show ?thesis
        by (auto simp: exec_def set_data_def split: if_splits prod.splits)
    qed (use Cmd Cons assms in \<open>auto simp: exec_def push_def\<close>)
  next
    case (Invoke s' h)
    with Cons assms show ?thesis
      by (cases h) (auto simp: exec_def)
  next
    case (RunLoop s')
    with Cons assms show ?thesis
      by (auto simp: exec_def set_data_def dest: txn_data_ok(3)
          split: sum.splits prod.splits option.splits if_splits)
  next
    case WqLoop
    with Cons assms show ?thesis
      by (auto simp: exec_def split: list.splits work.splits option.splits)
  next
    case (ProcPush w)
    with Cons assms show ?thesis
      by (auto simp: exec_def push_def)
  qed (use Cons assms in \<open>auto simp: exec_def\<close>)
qed

text \<open>Only the drain loop clears the flag, and only the drain loop takes from the queue.\<close>

lemma exec_running:
  assumes "exec B thr x = Next (thr', x')" "running (m_data x s)" "tokens_cont s (cont thr) = 0"
  shows "running (m_data x' s) \<and> (\<exists>ys. q (m_data x' s) = q (m_data x s) @ ys)"
proof (cases "cont thr")
  case Nil
  with assms show ?thesis by (simp add: exec_def)
next
  case (Cons i c)
  show ?thesis
  proof (cases i)
    case (Cmd a)
    with Cons assms show ?thesis
      by (cases a)
         (auto simp: exec_def set_data_def push_def dispatch_txn_def post_txn_def
            Let_def split: if_splits prod.splits)
  next
    case (Invoke s' h)
    with Cons assms show ?thesis
      by (cases h) (auto simp: exec_def)
  next
    case (RunLoop s')
    with Cons assms show ?thesis
      by (auto simp: exec_def set_data_def run_txn_def
          split: sum.splits prod.splits option.splits if_splits list.splits)
  next
    case WqLoop
    with Cons assms show ?thesis
      by (auto simp: exec_def split: list.splits work.splits option.splits)
  next
    case (ProcPush w)
    with Cons assms show ?thesis
      by (auto simp: exec_def push_def)
  qed (use Cons assms in \<open>auto simp: exec_def\<close>)
qed

section \<open>The invariant of every run\<close>

lemma step_NextD:
  assumes "step B t st = Next st'"
  shows "t < length (threads st) \<and>
         (\<exists>thr' x'. exec B (threads st ! t) (sh st) = Next (thr', x') \<and>
            st' = \<lparr>sh = x', threads = (threads st)[t := thr']\<rparr>)"
  using assms
  by (cases "exec B (threads st ! t) (sh st)") (auto simp: step_def split: if_splits)

lemma tokens_step:
  assumes "t < length (threads st)" "exec B (threads st ! t) (sh st) = Next (thr', x')"
  shows "tokens s \<lparr>sh = x', threads = (threads st)[t := thr']\<rparr> + credit (m_data (sh st) s)
         \<le> tokens s st + credit (m_data x' s)"
proof -
  let ?f = "\<lambda>thr. tokens_cont s (cont thr)"
  have "sum_list (map ?f ((threads st)[t := thr'])) + ?f (threads st ! t)
        = sum_list (map ?f (threads st)) + ?f thr'"
    using assms(1) by (rule sum_list_map_update)
  moreover note exec_tokens [OF assms(2), of s]
  ultimately show ?thesis by (simp add: tokens_def)
qed

lemma invariant_step:
  assumes "invariant st" "step B t st = Next st'"
  shows "invariant st'"
proof -
  from step_NextD [OF assms(2)] obtain thr' x' where
    t: "t < length (threads st)" and
    e: "exec B (threads st ! t) (sh st) = Next (thr', x')" and
    st': "st' = \<lparr>sh = x', threads = (threads st)[t := thr']\<rparr>"
    by blast
  have "tokens s st' \<le> credit (m_data (sh st') s)" for s
  proof -
    have "tokens s st \<le> credit (m_data (sh st) s)"
      using assms(1) by (simp add: invariant_def)
    with tokens_step [OF t e, of s] show ?thesis by (simp add: st')
  qed
  moreover have "list_all thread_ok (threads st')"
  proof -
    have all: "\<forall>thr\<in>set (threads st). thread_ok thr"
      using assms(1) by (simp add: invariant_def list_all_iff)
    with t have "thread_ok (threads st ! t)" by simp
    from exec_thread_ok [OF e this] all show ?thesis
      by (auto simp: st' list_all_iff dest!: set_update_subset_insert [THEN subsetD])
  qed
  moreover have "data_ok (m_data (sh st') s)" for s
    using assms(1) exec_data_ok [OF e, of s] by (simp add: invariant_def st')
  ultimately show ?thesis by (simp add: invariant_def)
qed

lemma invariant_initial:
  assumes "initial st"
  shows "invariant st"
proof -
  have "\<forall>thr\<in>set (threads st). tokens_cont s (cont thr) = 0" for s
    using assms by (auto simp: initial_def fresh_def list_all_iff tokens_cont_fresh)
  then have "sum_list (map (\<lambda>thr. tokens_cont s (cont thr)) (threads st)) = 0" for s
    by simp
  then have "tokens s st = 0" for s
    using assms by (simp add: tokens_def initial_def)
  moreover have "list_all thread_ok (threads st)"
    using assms
    by (auto simp: initial_def fresh_def list_all_iff thread_ok_def wf_fresh ctx_ok_fresh
        in_ctx_fresh)
  moreover have "data_ok (m_data (sh st) s)" for s
    using assms by (simp add: initial_def data_ok_def is_Idle_def idle_def)
  ultimately show ?thesis by (simp add: invariant_def)
qed

lemma invariant_reaches:
  assumes "reaches B st0 st" "invariant st0"
  shows "invariant st"
  using assms by (induction rule: reaches.induct) (auto intro: invariant_step)

lemma invariant_reachable: "reachable B st \<Longrightarrow> invariant st"
  by (auto simp: reachable_def intro: invariant_reaches invariant_initial)

lemma reaches_trans: "reaches B st1 st2 \<Longrightarrow> reaches B st0 st1 \<Longrightarrow> reaches B st0 st2"
  by (induction rule: reaches.induct) (auto intro: reaches.intros)

lemma reaches_run: "reaches B st (run B ts st)"
proof (induction ts arbitrary: st)
  case Nil
  show ?case by (simp add: reaches.here)
next
  case (Cons t ts)
  show ?case
  proof (cases "step B t st")
    case (Next st1)
    have "reaches B st st1"
      using reaches.later [OF reaches.here Next] .
    with Cons [of st1] Next show ?thesis
      by (auto intro: reaches_trans)
  qed (simp_all add: reaches.here)
qed

lemma reachable_run: "initial st \<Longrightarrow> reachable B (run B ts st)"
  unfolding reachable_def using reaches_run by blast

lemma reachable_reaches: "reachable B st \<Longrightarrow> reaches B st st' \<Longrightarrow> reachable B st'"
  unfolding reachable_def by (blast intro: reaches_trans)

text \<open>What the invariant says about one thread.\<close>

lemma invariant_thread:
  assumes "invariant st" "t < length (threads st)"
  shows "thread_ok (threads st ! t)"
  using assms by (simp add: invariant_def list_all_length)

lemma tokens_thread:
  assumes "t < length (threads st)"
  shows "tokens_cont s (cont (threads st ! t)) \<le> tokens s st"
proof -
  let ?f = "\<lambda>thr. tokens_cont s (cont thr)"
  have "?f (threads st ! t) \<le> sum_list (map ?f (threads st))"
    using assms by (simp add: member_le_sum_list)
  then show ?thesis by (simp add: tokens_def)
qed

lemma invariant_owns_running:
  assumes "invariant st" "t < length (threads st)" "owns s (cont (threads st ! t))"
  shows "running (m_data (sh st) s)"
proof -
  have "1 \<le> tokens s st"
    using owns_tokens_cont [OF assms(3)] tokens_thread [OF assms(2), of s] by simp
  moreover have "tokens s st \<le> credit (m_data (sh st) s)"
    using assms(1) by (simp add: invariant_def)
  ultimately show ?thesis by (simp add: credit_def split: if_splits)
qed


section \<open>Evaluating the example runs\<close>

lemmas ev = step_def exec_def B_ex_def worker_def client_def start_def ex1_def
  dispatch_txn_def post_txn_def run_txn_def set_data_def push_def idle_def Let_def
  canDispatch_def runningInThisThread_def Callstack_enter_def Callstack_contains_def the_wq_def

lemma initial_start: "list_all fresh ths \<Longrightarrow> initial (start ths)"
  by (simp add: initial_def start_def)

lemma initial_ex1: "initial ex1"
  by (simp add: ex1_def initial_start fresh_def worker_def client_def)

section \<open>Further facts about runs\<close>

lemma running_update_True: "running d \<Longrightarrow> d\<lparr>running := True\<rparr> = (d :: Data)"
  by (cases d) simp

lemma exec_AssertFailed:
  assumes "exec B thr x = Abort AssertFailed"
  shows "\<exists>s c. cont thr = RunLoop s # c \<and> \<not> running (m_data x s)"
proof (cases "cont thr")
  case Nil
  with assms show ?thesis by (simp add: exec_def)
next
  case (Cons i c)
  show ?thesis
  proof (cases i)
    case (Cmd a)
    with Cons assms show ?thesis
      by (cases a) (auto simp: exec_def split: if_splits prod.splits)
  next
    case (Invoke s h)
    with Cons assms show ?thesis
      by (cases h) (auto simp: exec_def)
  next
    case (RunLoop s)
    with Cons assms show ?thesis
      by (auto simp: exec_def run_txn_def
          split: sum.splits prod.splits option.splits if_splits list.splits)
  next
    case WqLoop
    with Cons assms show ?thesis
      by (auto simp: exec_def split: list.splits work.splits option.splits)
  qed (use Cons assms in \<open>auto simp: exec_def\<close>)
qed

lemma step_AbortD:
  assumes "step B t st = Abort e"
  shows "t < length (threads st) \<and> exec B (threads st ! t) (sh st) = Abort e"
  using assms
  by (cases "exec B (threads st ! t) (sh st)") (auto simp: step_def split: if_splits)

lemma invariant_RunLoop_running:
  assumes "invariant st" "t < length (threads st)" "cont (threads st ! t) = RunLoop s # c"
  shows "running (m_data (sh st) s)"
  using assms invariant_owns_running [of st t s] by simp

lemma initial_ex2: "initial ex2"
  by (simp add: ex2_def initial_start fresh_def worker_def client_def)

lemma tokens_0_thread:
  assumes "tokens s st = 0" "t < length (threads st)"
  shows "tokens_cont s (cont (threads st ! t)) = 0"
  using tokens_thread [OF assms(2), of s] assms(1) by simp

lemma stuck_step:
  assumes "stuck s st" "step B t st = Next st'"
  shows "stuck s st' \<and> (\<exists>ys. q (m_data (sh st') s) = q (m_data (sh st) s) @ ys)"
proof -
  from step_NextD [OF assms(2)] obtain thr' x' where
    t: "t < length (threads st)" and
    e: "exec B (threads st ! t) (sh st) = Next (thr', x')" and
    st': "st' = \<lparr>sh = x', threads = (threads st)[t := thr']\<rparr>"
    by blast
  have tok: "tokens s st = 0" and run: "running (m_data (sh st) s)" and inv: "invariant st"
    using assms(1) by (simp_all add: stuck_def)
  from exec_running [OF e run tokens_0_thread [OF tok t]]
  have run': "running (m_data x' s)" and grow: "\<exists>ys. q (m_data x' s) = q (m_data (sh st) s) @ ys"
    by blast+
  from tokens_step [OF t e, of s] tok run run'
  have "tokens s st' = 0" by (simp add: st' credit_def)
  with run' grow invariant_step [OF inv assms(2)] show ?thesis
    by (simp add: stuck_def st')
qed

lemma stuck_reaches:
  assumes "reaches B st st'" "stuck s st"
  shows "stuck s st' \<and> (\<exists>ys. q (m_data (sh st') s) = q (m_data (sh st) s) @ ys)"
  using assms
proof (induction rule: reaches.induct)
  case here
  then show ?case by simp
next
  case (later st st1 t st2)
  then obtain ys where a: "stuck s st1" "q (m_data (sh st1) s) = q (m_data (sh st) s) @ ys"
    by blast
  from stuck_step [OF a(1) later.hyps(2)] a(2) show ?case by auto
qed

text \<open>In a stuck strand nothing is executed, drained or scheduled.\<close>

lemma stuck_quiet:
  assumes "stuck s st"
  shows "DrainTask s \<notin> set (m_q (sh st))"
    and "t < length (threads st) \<Longrightarrow> \<not> owns s (cont (threads st ! t))"
    and "t < length (threads st) \<Longrightarrow> \<not> executing s (threads st ! t)"
proof -
  have tok: "tokens s st = 0" and inv: "invariant st"
    using assms by (simp_all add: stuck_def)
  from tok have "count_list (m_q (sh st)) (DrainTask s) = 0"
    by (simp add: tokens_def)
  then show "DrainTask s \<notin> set (m_q (sh st))"
    by (simp add: count_list_0_iff)
  show no: "\<not> owns s (cont (threads st ! t))" if "t < length (threads st)" for t
    using tokens_0_thread [OF tok that] owns_tokens_cont [of s "cont (threads st ! t)"] by auto
  show "\<not> executing s (threads st ! t)" if "t < length (threads st)"
    using invariant_thread [OF inv that] no [OF that]
    by (auto simp: thread_ok_def executing_def dest: wf_executing)
qed

lemma ctx_executing:
  "ctx_ok ss ws c \<Longrightarrow> in_ctx ss c \<Longrightarrow> list_ex (runs_handler s) c \<Longrightarrow>
   Callstack_contains the_wq ws"
proof (induction c arbitrary: ss ws)
  case Nil
  then show ?case by simp
next
  case (Cons i c)
  show ?case
  proof (cases i)
    case LeaveWq
    with Cons.prems Cons.IH [of ss "Callstack_exit ws"] show ?thesis
      by (auto simp: Callstack_contains_def dest: Callstack_exit_subset)
  next
    case LeaveStrand
    with Cons.prems Cons.IH [of "Callstack_exit ss" ws] show ?thesis by auto
  qed (use Cons.prems Cons.IH [of ss ws] in \<open>auto simp: Callstack_contains_def\<close>)
qed

lemma initial_ex3: "initial ex3"
  by (simp add: ex3_def initial_start fresh_def worker_def client_def)

section \<open>The claims\<close>

text \<open>
  C1: in every state a run reaches, whatever the threads' programs and the mix of
  \<open>dispatch\<close> and \<open>post\<close>, a thread that is executing a handler of a strand holds that
  strand (it is inside the strand's \<open>run\<close>, or it set the flag in \<open>dispatch\<close> and has \<open>run\<close>
  pending), the strand's flag is set, the strand is on the thread's \<open>Callstack<Strand>\<close>,
  and no other thread is executing a handler of the same strand. A handler called inline
  by a nested \<open>dispatch\<close> runs on the thread that holds the strand, inside the handler that
  dispatched it.
\<close>

theorem strand_mutual_exclusion:
  assumes "reachable B st" "t1 < length (threads st)" "executing s (threads st ! t1)"
  shows "running (m_data (sh st) s) \<and>
         owns s (cont (threads st ! t1)) \<and>
         runningInThisThread s (threads st ! t1) \<and>
         (\<forall>t2 < length (threads st). t2 \<noteq> t1 \<longrightarrow> \<not> executing s (threads st ! t2))"
proof -
  have inv: "invariant st"
    using assms(1) by (rule invariant_reachable)
  have held: "owns s (cont (threads st ! t))"
    if "t < length (threads st)" "executing s (threads st ! t)" for t
    using invariant_thread [OF inv that(1)] that(2)
    by (auto simp: thread_ok_def executing_def intro: wf_executing)
  have own1: "owns s (cont (threads st ! t1))"
    using assms(2,3) by (rule held)
  have "\<not> executing s (threads st ! t2)" if t2: "t2 < length (threads st)" "t2 \<noteq> t1" for t2
  proof
    assume "executing s (threads st ! t2)"
    with t2 have own2: "owns s (cont (threads st ! t2))" by (simp add: held)
    let ?f = "\<lambda>thr. tokens_cont s (cont thr)"
    have "?f (threads st ! t1) + ?f (threads st ! t2) \<le> sum_list (map ?f (threads st))"
      using assms(2) t2 by (intro sum_list_map_two) auto
    with owns_tokens_cont [OF own1] owns_tokens_cont [OF own2]
    have "2 \<le> tokens s st" by (simp add: tokens_def)
    moreover have "tokens s st \<le> credit (m_data (sh st) s)"
      using inv by (simp add: invariant_def)
    ultimately show False by (simp add: credit_def split: if_splits)
  qed
  moreover have "runningInThisThread s (threads st ! t1)"
    using invariant_thread [OF inv assms(2)] assms(3)
    by (auto simp: thread_ok_def executing_def runningInThisThread_def intro: in_ctx_executing)
  ultimately show ?thesis
    using own1 invariant_owns_running [OF inv assms(2) own1] by blast
qed

theorem strand_mutual_exclusion_witness:
  "reachable B_ex in_handler_ex \<and>
   0 < length (threads in_handler_ex) \<and>
   executing 0 (threads in_handler_ex ! 0) \<and>
   running (m_data (sh in_handler_ex) 0) \<and>
   owns 0 (cont (threads in_handler_ex ! 0)) \<and>
   runningInThisThread 0 (threads in_handler_ex ! 0) \<and>
   \<not> executing 0 (threads in_handler_ex ! 1)"
proof -
  have r: "reachable B_ex in_handler_ex"
    unfolding in_handler_ex_def using initial_ex1 by (rule reachable_run)
  have c: "cont (threads in_handler_ex ! 0) =
      [Cmd (Dispatch 0 (Some 3)), Ret 0, RunLoop 0, LeaveStrand, WqLoop, LeaveWq]"
    and n: "length (threads in_handler_ex) = 2"
    by (simp_all add: in_handler_ex_def ev)
  have e: "executing 0 (threads in_handler_ex ! 0)"
    by (simp add: executing_def c)
  from strand_mutual_exclusion [OF r _ e] n
  show ?thesis using r e by auto
qed

text \<open>
  C2, on the run of \<open>ex3\<close>: a worker inside \<open>WorkQueue::run\<close> that is not running strand 0
  calls \<open>dispatch\<close> while the strand's flag is clear. It sets the flag, calls the handler and
  calls \<open>run\<close>; the handler has posted an empty function and closure 6 meanwhile. \<open>run\<close>
  pops the empty function and returns, and so does \<open>dispatch\<close>: the flag is still set and
  closure 6 is still queued. The worker then waits on the empty work queue and the client
  has finished: the queue is never drained.
\<close>

theorem dispatch_returns_undrained:
  "reachable B_ex2 at_claim_ex \<and>
   cont (threads at_claim_ex ! 0) = [Cmd (Dispatch 0 (Some 5)), WqLoop, LeaveWq] \<and>
   canDispatch (threads at_claim_ex ! 0) \<and>
   \<not> runningInThisThread 0 (threads at_claim_ex ! 0) \<and>
   m_data (sh at_claim_ex) 0 = \<lparr>running = False, q = []\<rparr> \<and>
   cont (threads (run B_ex2 [0] at_claim_ex) ! 0) =
     [Invoke 0 (Some 5), Run 0, LeaveStrand, WqLoop, LeaveWq] \<and>
   m_data (sh (run B_ex2 [0] at_claim_ex)) 0 = \<lparr>running = True, q = []\<rparr> \<and>
   cont (threads (run B_ex2 [0, 0, 0, 0, 0, 0] at_claim_ex) ! 0) =
     [RunLoop 0, LeaveStrand, LeaveStrand, WqLoop, LeaveWq] \<and>
   m_data (sh (run B_ex2 [0, 0, 0, 0, 0, 0] at_claim_ex)) 0 =
     \<lparr>running = True, q = [None, Some 6]\<rparr> \<and>
   cont (threads returned_ex ! 0) = [WqLoop, LeaveWq] \<and>
   strand_ctx (threads returned_ex ! 0) = [] \<and>
   m_data (sh returned_ex) 0 = \<lparr>running = True, q = [Some 6]\<rparr> \<and>
   step B_ex2 0 returned_ex = Blocked \<and>
   step B_ex2 1 returned_ex = Finished"
proof -
  note ev2 = step_def exec_def B_ex2_def worker_def client_def start_def ex3_def
    dispatch_txn_def post_txn_def run_txn_def set_data_def push_def idle_def Let_def
    canDispatch_def runningInThisThread_def Callstack_enter_def Callstack_contains_def
    the_wq_def
  have "reachable B_ex2 at_claim_ex"
    unfolding at_claim_ex_def using initial_ex3 by (rule reachable_run)
  then show ?thesis
    by (simp add: returned_ex_def at_claim_ex_def ev2)
qed

text \<open>
  C3: \<open>post(handler)\<close> takes one atomic step that appends the handler to the queue and
  sets the flag. The handler is not called. If the flag was clear, and only then, the
  thread's next step pushes the strand's drain task onto the work queue.
\<close>

theorem post_enqueues:
  assumes "t < length (threads st)"
    and "cont (threads st ! t) = Cmd (Post s h) # c"
  shows "step B t st = Next
           \<lparr>sh = set_data s ((m_data (sh st) s)\<lparr>q := q (m_data (sh st) s) @ [h],
                                               running := True\<rparr>) (sh st),
            threads = (threads st)[t := (threads st ! t)
              \<lparr>cont := (if running (m_data (sh st) s) then c
                         else ProcPush (DrainTask s) # c)\<rparr>]\<rparr> \<and>
         (\<not> running (m_data (sh st) s) \<longrightarrow>
            run B [t, t] st =
              \<lparr>sh = push (DrainTask s)
                     (set_data s ((m_data (sh st) s)\<lparr>q := q (m_data (sh st) s) @ [h],
                                                      running := True\<rparr>) (sh st)),
               threads = (threads st)[t := (threads st ! t)\<lparr>cont := c\<rparr>]\<rparr>)"
proof -
  have one: "step B t st = Next
           \<lparr>sh = set_data s ((m_data (sh st) s)\<lparr>q := q (m_data (sh st) s) @ [h],
                                               running := True\<rparr>) (sh st),
            threads = (threads st)[t := (threads st ! t)
              \<lparr>cont := (if running (m_data (sh st) s) then c
                         else ProcPush (DrainTask s) # c)\<rparr>]\<rparr>"
    using assms by (simp add: step_def exec_def post_txn_def Let_def running_update_True)
  show ?thesis
    using assms(1) by (simp add: one) (simp add: step_def exec_def)
qed

theorem post_enqueues_witness:
  "0 < length (threads at_post_ex) \<and>
   cont (threads at_post_ex ! 0) = Cmd (Post 0 (Some 2)) # [Cmd Stop] \<and>
   \<not> running (m_data (sh at_post_ex) 0) \<and>
   step B_ex 0 at_post_ex = Next
     \<lparr>sh = \<lparr>m_data = (\<lambda>_. idle)(0 := \<lparr>running = True, q = [Some 2]\<rparr>), m_q = []\<rparr>,
      threads = [\<lparr>cont = [ProcPush (DrainTask 0), Cmd Stop], strand_ctx = [], wq_ctx = []\<rparr>]\<rparr> \<and>
   run B_ex [0, 0] at_post_ex =
     \<lparr>sh = \<lparr>m_data = (\<lambda>_. idle)(0 := \<lparr>running = True, q = [Some 2]\<rparr>), m_q = [DrainTask 0]\<rparr>,
      threads = [\<lparr>cont = [Cmd Stop], strand_ctx = [], wq_ctx = []\<rparr>]\<rparr>"
proof -
  have a: "0 < length (threads at_post_ex)"
    "cont (threads at_post_ex ! 0) = Cmd (Post 0 (Some 2)) # [Cmd Stop]"
    and n: "\<not> running (m_data (sh at_post_ex) 0)"
    by (simp_all add: at_post_ex_def start_def client_def idle_def)
  from post_enqueues [OF a, of B_ex] n
  have "step B_ex 0 at_post_ex = Next
     \<lparr>sh = \<lparr>m_data = (\<lambda>_. idle)(0 := \<lparr>running = True, q = [Some 2]\<rparr>), m_q = []\<rparr>,
      threads = [\<lparr>cont = [ProcPush (DrainTask 0), Cmd Stop], strand_ctx = [], wq_ctx = []\<rparr>]\<rparr>"
   and "run B_ex [0, 0] at_post_ex =
     \<lparr>sh = \<lparr>m_data = (\<lambda>_. idle)(0 := \<lparr>running = True, q = [Some 2]\<rparr>), m_q = [DrainTask 0]\<rparr>,
      threads = [\<lparr>cont = [Cmd Stop], strand_ctx = [], wq_ctx = []\<rparr>]\<rparr>"
    by (simp_all add: at_post_ex_def start_def client_def idle_def set_data_def push_def
        del: run.simps)
  with a n show ?thesis by simp
qed

text \<open>
  C4, on the run of \<open>ex2\<close>: the loop of \<open>Strand::run\<close> finds the queue non-empty, pops the
  empty function at its front, calls nothing and returns. The flag is still set and
  closure 2 is still queued. The worker then waits on the empty work queue and the client
  has finished: closure 2 is never called.
\<close>

theorem drain_leaves_handler_behind:
  "reachable B_ex null_front_ex \<and>
   cont (threads null_front_ex ! 0) = [RunLoop 0, LeaveStrand, WqLoop, LeaveWq] \<and>
   m_data (sh null_front_ex) 0 = \<lparr>running = True, q = [None, Some 2]\<rparr> \<and>
   step B_ex 0 null_front_ex = Next stuck_ex \<and>
   cont (threads stuck_ex ! 0) = [LeaveStrand, WqLoop, LeaveWq] \<and>
   m_data (sh stuck_ex) 0 = \<lparr>running = True, q = [Some 2]\<rparr> \<and>
   step B_ex 0 after_stuck_ex = Blocked \<and>
   step B_ex 1 after_stuck_ex = Finished"
proof -
  have "reachable B_ex null_front_ex"
    unfolding null_front_ex_def using initial_ex2 by (rule reachable_run)
  then show ?thesis
    by (simp add: after_stuck_ex_def stuck_ex_def null_front_ex_def ex2_def ev)
qed

text \<open>
  C5: in every state a run reaches, \<open>dispatch(handler)\<close> from a thread that is running the
  strand (the strand is on the thread's \<open>Callstack<Strand>\<close>) takes one step that calls the
  handler and touches neither the strand's data nor the work queue; such a thread is
  always inside the work queue's \<open>run\<close>, so the first test of \<open>dispatch\<close> passes. The body
  of the handler and its return come before whatever follows the return of \<open>dispatch\<close>.
\<close>

theorem dispatch_inline:
  assumes "reachable B st"
    and "t < length (threads st)"
    and "cont (threads st ! t) = Cmd (Dispatch s h) # c"
    and "runningInThisThread s (threads st ! t)"
  shows "canDispatch (threads st ! t) \<and>
         step B t st = Next
           \<lparr>sh = sh st, threads = (threads st)[t := (threads st ! t)\<lparr>cont := Invoke s h # c\<rparr>]\<rparr> \<and>
         (\<forall>f. h = Some f \<longrightarrow>
            run B [t, t] st =
              \<lparr>sh = sh st,
               threads = (threads st)[t := (threads st ! t)\<lparr>cont := map Cmd (B f) @ Ret s # c\<rparr>]\<rparr>)"
proof -
  have "thread_ok (threads st ! t)"
    using invariant_thread [OF invariant_reachable [OF assms(1)] assms(2)] .
  then have "strand_ctx (threads st ! t) = [] \<or> canDispatch (threads st ! t)"
    using assms(3) by (simp add: thread_ok_def canDispatch_def)
  with assms(4) have can: "canDispatch (threads st ! t)"
    by (auto simp: runningInThisThread_def Callstack_contains_def)
  have one: "step B t st = Next
      \<lparr>sh = sh st, threads = (threads st)[t := (threads st ! t)\<lparr>cont := Invoke s h # c\<rparr>]\<rparr>"
    using assms(2,3,4) can by (simp add: step_def exec_def)
  show ?thesis
    using assms(2) can by (simp add: one) (simp add: step_def exec_def)
qed

theorem dispatch_inline_witness:
  "reachable B_ex in_handler_ex \<and>
   0 < length (threads in_handler_ex) \<and>
   cont (threads in_handler_ex ! 0) =
     Cmd (Dispatch 0 (Some 3)) # [Ret 0, RunLoop 0, LeaveStrand, WqLoop, LeaveWq] \<and>
   runningInThisThread 0 (threads in_handler_ex ! 0) \<and>
   canDispatch (threads in_handler_ex ! 0) \<and>
   step B_ex 0 in_handler_ex = Next
     \<lparr>sh = sh in_handler_ex,
      threads = (threads in_handler_ex)[0 := (threads in_handler_ex ! 0)
        \<lparr>cont := [Invoke 0 (Some 3), Ret 0, RunLoop 0, LeaveStrand, WqLoop, LeaveWq]\<rparr>]\<rparr> \<and>
   run B_ex [0, 0] in_handler_ex =
     \<lparr>sh = sh in_handler_ex,
      threads = (threads in_handler_ex)[0 := (threads in_handler_ex ! 0)
        \<lparr>cont := [Ret 0, Ret 0, RunLoop 0, LeaveStrand, WqLoop, LeaveWq]\<rparr>]\<rparr>"
proof -
  have r: "reachable B_ex in_handler_ex"
    unfolding in_handler_ex_def using initial_ex1 by (rule reachable_run)
  have a: "0 < length (threads in_handler_ex)"
    "cont (threads in_handler_ex ! 0) =
      Cmd (Dispatch 0 (Some 3)) # [Ret 0, RunLoop 0, LeaveStrand, WqLoop, LeaveWq]"
    "runningInThisThread 0 (threads in_handler_ex ! 0)"
    by (simp_all add: in_handler_ex_def ev)
  have b: "B_ex 3 = []"
    by (simp add: B_ex_def)
  from dispatch_inline [OF r a] b
  show ?thesis using r a by (simp del: run.simps)
qed

text \<open>
  C6: \<open>dispatch(handler)\<close> from a thread that is not inside the work queue's \<open>run\<close> is the
  call \<open>post(handler)\<close> and nothing else: its first step changes no shared data and leaves
  the thread calling \<open>post\<close> with the same handler and the same continuation, so every run
  goes on as it would after that call of \<open>post\<close>. The second step appends the handler to the
  queue and sets the flag. If the flag was set, \<open>dispatch\<close> has returned then and the work
  queue is as it was. If the flag was clear, the third step appends the strand's drain task
  to the work queue and \<open>dispatch\<close> returns. The handler is called in none of these steps.
\<close>

theorem dispatch_outside_is_post:
  assumes "t < length (threads st)"
    and "cont (threads st ! t) = Cmd (Dispatch s h) # c"
    and "\<not> canDispatch (threads st ! t)"
  shows "step B t st = Next
           \<lparr>sh = sh st,
            threads = (threads st)[t := (threads st ! t)\<lparr>cont := Cmd (Post s h) # c\<rparr>]\<rparr> \<and>
         run B [t, t] st =
           run B [t] \<lparr>sh = sh st,
                      threads = (threads st)[t := (threads st ! t)\<lparr>cont := Cmd (Post s h) # c\<rparr>]\<rparr> \<and>
         run B [t, t] st =
           \<lparr>sh = set_data s ((m_data (sh st) s)\<lparr>q := q (m_data (sh st) s) @ [h],
                                               running := True\<rparr>) (sh st),
            threads = (threads st)[t := (threads st ! t)
              \<lparr>cont := (if running (m_data (sh st) s) then c
                         else ProcPush (DrainTask s) # c)\<rparr>]\<rparr> \<and>
         (\<forall>ts. run B (t # ts) st =
            run B ts \<lparr>sh = sh st,
                      threads = (threads st)[t := (threads st ! t)\<lparr>cont := Cmd (Post s h) # c\<rparr>]\<rparr>) \<and>
         (running (m_data (sh st) s) \<longrightarrow>
            cont (threads (run B [t, t] st) ! t) = c \<and>
            m_q (sh (run B [t, t] st)) = m_q (sh st)) \<and>
         (\<not> running (m_data (sh st) s) \<longrightarrow>
            run B [t, t, t] st =
              \<lparr>sh = push (DrainTask s)
                     (set_data s ((m_data (sh st) s)\<lparr>q := q (m_data (sh st) s) @ [h],
                                                      running := True\<rparr>) (sh st)),
               threads = (threads st)[t := (threads st ! t)\<lparr>cont := c\<rparr>]\<rparr> \<and>
            cont (threads (run B [t, t, t] st) ! t) = c \<and>
            m_q (sh (run B [t, t, t] st)) = m_q (sh st) @ [DrainTask s])"
proof -
  let ?posting = "\<lparr>sh = sh st,
      threads = (threads st)[t := (threads st ! t)\<lparr>cont := Cmd (Post s h) # c\<rparr>]\<rparr>"
  let ?d = "(m_data (sh st) s)\<lparr>q := q (m_data (sh st) s) @ [h], running := True\<rparr>"
  let ?posted = "\<lparr>sh = set_data s ?d (sh st),
      threads = (threads st)[t := (threads st ! t)
        \<lparr>cont := (if running (m_data (sh st) s) then c else ProcPush (DrainTask s) # c)\<rparr>]\<rparr>"
  let ?pushed = "\<lparr>sh = push (DrainTask s) (set_data s ?d (sh st)),
      threads = (threads st)[t := (threads st ! t)\<lparr>cont := c\<rparr>]\<rparr>"
  have one: "step B t st = Next ?posting"
    using assms by (simp add: step_def exec_def)
  have two: "step B t ?posting = Next ?posted"
    using assms(1)
    by (simp add: step_def exec_def post_txn_def Let_def running_update_True)
  have three: "step B t ?posted = Next ?pushed" if "\<not> running (m_data (sh st) s)"
    using assms(1) that by (simp add: step_def exec_def)
  have r1: "run B (t # ts) st = run B ts ?posting" for ts
    by (simp add: one)
  have r2: "run B [t, t] st = ?posted"
    by (simp add: one two)
  have r3: "run B [t, t, t] st = ?pushed" if "\<not> running (m_data (sh st) s)"
    using three [OF that] by (simp add: one two)
  have "cont (threads (run B [t, t] st) ! t) = c \<and>
        m_q (sh (run B [t, t] st)) = m_q (sh st)" if "running (m_data (sh st) s)"
    unfolding r2 using assms(1) that by (simp add: set_data_def)
  moreover have "run B [t, t, t] st = ?pushed \<and>
        cont (threads (run B [t, t, t] st) ! t) = c \<and>
        m_q (sh (run B [t, t, t] st)) = m_q (sh st) @ [DrainTask s]"
    if "\<not> running (m_data (sh st) s)"
    unfolding r3 [OF that] using assms(1) by (simp add: set_data_def push_def)
  moreover have "run B [t, t] st = run B [t] ?posting"
    by (rule r1)
  ultimately show ?thesis
    using one r1 r2 by blast
qed

theorem dispatch_outside_is_post_witness:
  "0 < length (threads at_dispatch_outside_ex) \<and>
   cont (threads at_dispatch_outside_ex ! 0) = Cmd (Dispatch 0 (Some 2)) # [Cmd Stop] \<and>
   \<not> canDispatch (threads at_dispatch_outside_ex ! 0) \<and>
   \<not> running (m_data (sh at_dispatch_outside_ex) 0) \<and>
   step B_ex 0 at_dispatch_outside_ex = Next at_post_ex \<and>
   run B_ex [0, 0] at_dispatch_outside_ex = run B_ex [0] at_post_ex \<and>
   run B_ex [0, 0, 0] at_dispatch_outside_ex = run B_ex [0, 0] at_post_ex \<and>
   run B_ex [0, 0] at_dispatch_outside_ex =
     \<lparr>sh = \<lparr>m_data = (\<lambda>_. idle)(0 := \<lparr>running = True, q = [Some 2]\<rparr>), m_q = []\<rparr>,
      threads = [\<lparr>cont = [ProcPush (DrainTask 0), Cmd Stop], strand_ctx = [], wq_ctx = []\<rparr>]\<rparr> \<and>
   run B_ex [0, 0, 0] at_dispatch_outside_ex =
     \<lparr>sh = \<lparr>m_data = (\<lambda>_. idle)(0 := \<lparr>running = True, q = [Some 2]\<rparr>),
             m_q = [DrainTask 0]\<rparr>,
      threads = [\<lparr>cont = [Cmd Stop], strand_ctx = [], wq_ctx = []\<rparr>]\<rparr> \<and>
   m_q (sh (run B_ex [0, 0, 0] at_dispatch_outside_ex)) = [DrainTask 0] \<and>
   0 < length (threads at_dispatch_outside_busy_ex) \<and>
   cont (threads at_dispatch_outside_busy_ex ! 0) = Cmd (Dispatch 0 (Some 2)) # [Cmd Stop] \<and>
   \<not> canDispatch (threads at_dispatch_outside_busy_ex ! 0) \<and>
   running (m_data (sh at_dispatch_outside_busy_ex) 0) \<and>
   run B_ex [0, 0] at_dispatch_outside_busy_ex =
     \<lparr>sh = \<lparr>m_data = (\<lambda>_. idle)(0 := \<lparr>running = True, q = [Some 3, Some 2]\<rparr>), m_q = []\<rparr>,
      threads = [\<lparr>cont = [Cmd Stop], strand_ctx = [], wq_ctx = []\<rparr>]\<rparr> \<and>
   cont (threads (run B_ex [0, 0] at_dispatch_outside_busy_ex) ! 0) = [Cmd Stop] \<and>
   m_q (sh (run B_ex [0, 0] at_dispatch_outside_busy_ex)) = []"
proof -
  have a: "0 < length (threads at_dispatch_outside_ex)"
    "cont (threads at_dispatch_outside_ex ! 0) = Cmd (Dispatch 0 (Some 2)) # [Cmd Stop]"
    "\<not> canDispatch (threads at_dispatch_outside_ex ! 0)"
    and na: "\<not> running (m_data (sh at_dispatch_outside_ex) 0)"
    by (simp_all add: at_dispatch_outside_ex_def start_def client_def canDispatch_def
        Callstack_contains_def idle_def)
  have b: "0 < length (threads at_dispatch_outside_busy_ex)"
    "cont (threads at_dispatch_outside_busy_ex ! 0) = Cmd (Dispatch 0 (Some 2)) # [Cmd Stop]"
    "\<not> canDispatch (threads at_dispatch_outside_busy_ex ! 0)"
    and rb: "running (m_data (sh at_dispatch_outside_busy_ex) 0)"
    by (simp_all add: at_dispatch_outside_busy_ex_def client_def canDispatch_def
        Callstack_contains_def)
  note defs = at_dispatch_outside_ex_def at_post_ex_def start_def client_def set_data_def
    idle_def push_def at_dispatch_outside_busy_ex_def
  note ia = dispatch_outside_is_post [OF a, of B_ex]
  note ib = dispatch_outside_is_post [OF b, of B_ex]
  have p: "\<lparr>sh = sh at_dispatch_outside_ex,
            threads = (threads at_dispatch_outside_ex)[0 := (threads at_dispatch_outside_ex ! 0)
               \<lparr>cont := Cmd (Post 0 (Some 2)) # [Cmd Stop]\<rparr>]\<rparr> = at_post_ex"
    by (simp add: defs)
  have "step B_ex 0 at_dispatch_outside_ex = Next at_post_ex"
    using ia [THEN conjunct1] by (simp only: p)
  moreover have all: "run B_ex (0 # ts) at_dispatch_outside_ex = run B_ex ts at_post_ex" for ts
    using ia [THEN conjunct2, THEN conjunct2, THEN conjunct2, THEN conjunct1]
    by (simp only: p)
  moreover have "run B_ex [0, 0] at_dispatch_outside_ex =
     \<lparr>sh = \<lparr>m_data = (\<lambda>_. idle)(0 := \<lparr>running = True, q = [Some 2]\<rparr>), m_q = []\<rparr>,
      threads = [\<lparr>cont = [ProcPush (DrainTask 0), Cmd Stop], strand_ctx = [], wq_ctx = []\<rparr>]\<rparr>"
    using ia [THEN conjunct2, THEN conjunct2, THEN conjunct1]
    by (simp add: defs del: run.simps)
  moreover have three: "run B_ex [0, 0, 0] at_dispatch_outside_ex =
     \<lparr>sh = \<lparr>m_data = (\<lambda>_. idle)(0 := \<lparr>running = True, q = [Some 2]\<rparr>),
             m_q = [DrainTask 0]\<rparr>,
      threads = [\<lparr>cont = [Cmd Stop], strand_ctx = [], wq_ctx = []\<rparr>]\<rparr>"
    using ia [THEN conjunct2, THEN conjunct2, THEN conjunct2, THEN conjunct2, THEN conjunct2] na
    by (simp add: defs del: run.simps)
  moreover have "m_q (sh (run B_ex [0, 0, 0] at_dispatch_outside_ex)) = [DrainTask 0]"
    by (simp only: three) simp
  moreover have busy: "run B_ex [0, 0] at_dispatch_outside_busy_ex =
     \<lparr>sh = \<lparr>m_data = (\<lambda>_. idle)(0 := \<lparr>running = True, q = [Some 3, Some 2]\<rparr>), m_q = []\<rparr>,
      threads = [\<lparr>cont = [Cmd Stop], strand_ctx = [], wq_ctx = []\<rparr>]\<rparr>"
    using ib [THEN conjunct2, THEN conjunct2, THEN conjunct1] rb
    by (simp add: defs del: run.simps)
  moreover have "cont (threads (run B_ex [0, 0] at_dispatch_outside_busy_ex) ! 0) = [Cmd Stop]"
    "m_q (sh (run B_ex [0, 0] at_dispatch_outside_busy_ex)) = []"
    by (simp_all only: busy) simp_all
  ultimately show ?thesis
    using a na b rb all [of "[0]"] all [of "[0, 0]"] by (simp del: run.simps)
qed

text \<open>
  C7: the data of a strand, after any transaction, is Idle (flag clear, queue empty) or
  Owned (flag set), never both. A \<open>Data\<close> is constructed Idle; each of the three
  transactions of \<open>dispatch\<close>, \<open>post\<close> and \<open>run\<close> keeps ``flag clear implies queue empty'';
  so it holds of every strand in every state a run reaches.
\<close>

theorem data_idle_or_owned:
  "(reachable B st \<longrightarrow> data_ok (m_data (sh st) s)) \<and>
   data_ok idle \<and>
   (data_ok d \<longrightarrow>
      data_ok (snd (dispatch_txn h d)) \<and> data_ok (snd (post_txn h d)) \<and>
      (\<forall>r d'. run_txn d = Inr (r, d') \<longrightarrow> data_ok d')) \<and>
   (data_ok d \<longleftrightarrow> (\<not> running d \<longrightarrow> q d = [])) \<and>
   \<not> (is_Idle d \<and> is_Owned d)"
proof -
  have "data_ok (m_data (sh st) s)" if "reachable B st"
    using invariant_reachable [OF that] by (simp add: invariant_def)
  moreover have "data_ok idle"
    by (simp add: data_ok_def is_Idle_def idle_def)
  moreover have "data_ok d' " if "data_ok d" "run_txn d = Inr (r, d')" for r d'
    using that by (rule txn_data_ok(3))
  moreover have "data_ok d \<longleftrightarrow> (\<not> running d \<longrightarrow> q d = [])"
    by (auto simp: data_ok_def is_Idle_def is_Owned_def)
  moreover have "\<not> (is_Idle d \<and> is_Owned d)"
    by (simp add: is_Idle_def is_Owned_def)
  ultimately show ?thesis
    by (simp add: txn_data_ok(1,2))
qed

theorem data_idle_or_owned_witness:
  "reachable B_ex posted_ex \<and>
   data_ok (m_data (sh posted_ex) 0) \<and>
   m_data (sh posted_ex) 0 = \<lparr>running = True, q = [Some 2]\<rparr> \<and>
   data_ok (snd (dispatch_txn (Some 3) \<lparr>running = True, q = [Some 2]\<rparr>)) \<and>
   data_ok (snd (post_txn (Some 3) \<lparr>running = True, q = [Some 2]\<rparr>)) \<and>
   run_txn \<lparr>running = True, q = [Some 2]\<rparr> = Inr (Some 2, \<lparr>running = True, q = []\<rparr>) \<and>
   data_ok \<lparr>running = True, q = []\<rparr>"
proof -
  have r: "reachable B_ex posted_ex"
    unfolding posted_ex_def using initial_ex1 by (rule reachable_run)
  have d: "m_data (sh posted_ex) 0 = \<lparr>running = True, q = [Some 2]\<rparr>"
    by (simp add: posted_ex_def ev)
  have t: "run_txn \<lparr>running = True, q = [Some 2]\<rparr> = Inr (Some 2, \<lparr>running = True, q = []\<rparr>)"
    by (simp add: run_txn_def)
  from data_idle_or_owned [of B_ex posted_ex 0 "\<lparr>running = True, q = [Some 2]\<rparr>" "Some 3"]
  show ?thesis using r d t by auto
qed



text \<open>
  C9: in every state a run reaches, a thread at the head of the loop of \<open>Strand::run\<close>
  finds the strand's flag set, so no step of any thread ends in a failed assertion. A
  thread that did find the flag clear there would abort.
\<close>

theorem drain_assert_holds:
  "(reachable B st \<longrightarrow>
      step B t st \<noteq> Abort AssertFailed \<and>
      (t < length (threads st) \<and> cont (threads st ! t) = RunLoop s # c \<longrightarrow>
         running (m_data (sh st) s))) \<and>
   (t < length (threads st) \<and> cont (threads st ! t) = RunLoop s # c \<and>
      \<not> running (m_data (sh st) s) \<longrightarrow> step B t st = Abort AssertFailed)"
proof -
  have "step B t st \<noteq> Abort AssertFailed" if r: "reachable B st"
  proof
    assume "step B t st = Abort AssertFailed"
    from step_AbortD [OF this] exec_AssertFailed [of B "threads st ! t" "sh st"]
    obtain s' c' where "t < length (threads st)" "cont (threads st ! t) = RunLoop s' # c'"
      "\<not> running (m_data (sh st) s')" by blast
    with invariant_RunLoop_running [OF invariant_reachable [OF r]] show False by blast
  qed
  moreover have "running (m_data (sh st) s)"
    if "reachable B st" "t < length (threads st)" "cont (threads st ! t) = RunLoop s # c"
    using invariant_RunLoop_running [OF invariant_reachable [OF that(1)] that(2,3)] .
  moreover have "step B t st = Abort AssertFailed"
    if "t < length (threads st)" "cont (threads st ! t) = RunLoop s # c"
      "\<not> running (m_data (sh st) s)"
    using that by (simp add: step_def exec_def run_txn_def)
  ultimately show ?thesis by blast
qed

theorem drain_assert_holds_witness:
  "reachable B_ex draining_ex \<and>
   step B_ex 0 draining_ex \<noteq> Abort AssertFailed \<and>
   0 < length (threads draining_ex) \<and>
   cont (threads draining_ex ! 0) = RunLoop 0 # [LeaveStrand, WqLoop, LeaveWq] \<and>
   running (m_data (sh draining_ex) 0) \<and>
   0 < length (threads broken_ex) \<and>
   cont (threads broken_ex ! 0) = RunLoop 0 # [LeaveStrand, WqLoop, LeaveWq] \<and>
   \<not> running (m_data (sh broken_ex) 0) \<and>
   step B_ex 0 broken_ex = Abort AssertFailed"
proof -
  have r: "reachable B_ex draining_ex"
    unfolding draining_ex_def using initial_ex1 by (rule reachable_run)
  have a: "0 < length (threads draining_ex)"
    "cont (threads draining_ex ! 0) = RunLoop 0 # [LeaveStrand, WqLoop, LeaveWq]"
    by (simp_all add: draining_ex_def ev)
  have b: "0 < length (threads broken_ex)"
    "cont (threads broken_ex ! 0) = RunLoop 0 # [LeaveStrand, WqLoop, LeaveWq]"
    "\<not> running (m_data (sh broken_ex) 0)"
    by (simp_all add: broken_ex_def idle_def)
  from drain_assert_holds [of B_ex draining_ex 0 0 "[LeaveStrand, WqLoop, LeaveWq]"]
    drain_assert_holds [of B_ex broken_ex 0 0 "[LeaveStrand, WqLoop, LeaveWq]"]
  show ?thesis using r a b by blast
qed

text \<open>
  C10: when the loop of \<open>Strand::run\<close> finds an empty function at the front of the queue,
  its step pops it, calls nothing and returns with the flag still set and the rest of the
  queue in place. From then on, whatever the threads do, the flag stays set, the handlers
  left behind stay in the queue, no drain task of the strand is in the work queue, no
  thread is in or about to enter the strand's \<open>run\<close>, no thread executes a handler of the
  strand, and every \<open>post\<close> to the strand returns without pushing a drain task.
\<close>

theorem empty_handler_sticks:
  assumes "reachable B st"
    and "t < length (threads st)"
    and "cont (threads st ! t) = RunLoop s # c"
    and "q (m_data (sh st) s) = None # qs"
  shows "\<exists>st1. step B t st = Next st1 \<and>
           cont (threads st1 ! t) = c \<and>
           running (m_data (sh st1) s) \<and>
           q (m_data (sh st1) s) = qs \<and>
           (\<forall>st2. reaches B st1 st2 \<longrightarrow>
              running (m_data (sh st2) s) \<and>
              (\<exists>ys. q (m_data (sh st2) s) = qs @ ys) \<and>
              DrainTask s \<notin> set (m_q (sh st2)) \<and>
              (\<forall>t2 < length (threads st2).
                 \<not> owns s (cont (threads st2 ! t2)) \<and>
                 \<not> executing s (threads st2 ! t2) \<and>
                 (\<forall>h c2. cont (threads st2 ! t2) = Cmd (Post s h) # c2 \<longrightarrow>
                    (\<exists>st3. step B t2 st2 = Next st3 \<and> cont (threads st3 ! t2) = c2))))"
proof -
  let ?thr = "threads st ! t"
  let ?d = "m_data (sh st) s"
  define st1 where
    "st1 = \<lparr>sh = set_data s (?d\<lparr>q := qs\<rparr>) (sh st), threads = (threads st)[t := ?thr\<lparr>cont := c\<rparr>]\<rparr>"
  have inv: "invariant st"
    using assms(1) by (rule invariant_reachable)
  have run: "running ?d"
    using inv assms(2,3) invariant_owns_running [of st t s] by simp
  have e: "exec B ?thr (sh st) = Next (?thr\<lparr>cont := c\<rparr>, set_data s (?d\<lparr>q := qs\<rparr>) (sh st))"
    using assms(3,4) run by (simp add: exec_def run_txn_def)
  have step: "step B t st = Next st1"
    using assms(2) e by (simp add: step_def st1_def)
  have "tokens s st \<le> credit ?d"
    using inv by (simp add: invariant_def)
  then have "tokens s st \<le> 1"
    using run by (simp add: credit_def)
  moreover have "tokens s st1 + 1 = tokens s st"
  proof -
    let ?f = "\<lambda>thr. tokens_cont s (cont thr)"
    have "sum_list (map ?f ((threads st)[t := ?thr\<lparr>cont := c\<rparr>])) + ?f ?thr
          = sum_list (map ?f (threads st)) + ?f (?thr\<lparr>cont := c\<rparr>)"
      using assms(2) by (rule sum_list_map_update)
    then show ?thesis
      using assms(3) by (simp add: tokens_def st1_def set_data_def)
  qed
  ultimately have "tokens s st1 = 0" by simp
  moreover have "running (m_data (sh st1) s)" and q1: "q (m_data (sh st1) s) = qs"
    using run by (simp_all add: st1_def set_data_def)
  ultimately have stuck1: "stuck s st1"
    using invariant_step [OF inv step] by (simp add: stuck_def)
  have later: "running (m_data (sh st2) s) \<and>
              (\<exists>ys. q (m_data (sh st2) s) = qs @ ys) \<and>
              DrainTask s \<notin> set (m_q (sh st2)) \<and>
              (\<forall>t2 < length (threads st2).
                 \<not> owns s (cont (threads st2 ! t2)) \<and>
                 \<not> executing s (threads st2 ! t2) \<and>
                 (\<forall>h c2. cont (threads st2 ! t2) = Cmd (Post s h) # c2 \<longrightarrow>
                    (\<exists>st3. step B t2 st2 = Next st3 \<and> cont (threads st3 ! t2) = c2)))"
    if "reaches B st1 st2" for st2
  proof -
    from stuck_reaches [OF that stuck1] q1
    have st2: "stuck s st2" and grow: "\<exists>ys. q (m_data (sh st2) s) = qs @ ys"
      by simp_all
    then have run2: "running (m_data (sh st2) s)"
      by (simp add: stuck_def)
    have "\<exists>st3. step B t2 st2 = Next st3 \<and> cont (threads st3 ! t2) = c2"
      if "t2 < length (threads st2)" "cont (threads st2 ! t2) = Cmd (Post s h) # c2" for t2 h c2
      using that run2 by (simp add: step_def exec_def post_txn_def Let_def)
    with run2 grow stuck_quiet [OF st2] show ?thesis by blast
  qed
  show ?thesis
    using step q1 later assms(2) run by (intro exI [of _ st1]) (simp add: st1_def set_data_def)
qed

theorem empty_handler_sticks_witness:
  "reachable B_ex null_front_ex \<and>
   0 < length (threads null_front_ex) \<and>
   cont (threads null_front_ex ! 0) = RunLoop 0 # [LeaveStrand, WqLoop, LeaveWq] \<and>
   q (m_data (sh null_front_ex) 0) = None # [Some 2] \<and>
   step B_ex 0 null_front_ex = Next stuck_ex \<and>
   cont (threads stuck_ex ! 0) = [LeaveStrand, WqLoop, LeaveWq] \<and>
   running (m_data (sh stuck_ex) 0) \<and>
   q (m_data (sh stuck_ex) 0) = [Some 2] \<and>
   reaches B_ex stuck_ex after_stuck_ex \<and>
   running (m_data (sh after_stuck_ex) 0) \<and>
   (\<exists>ys. q (m_data (sh after_stuck_ex) 0) = [Some 2] @ ys) \<and>
   DrainTask 0 \<notin> set (m_q (sh after_stuck_ex)) \<and>
   \<not> owns 0 (cont (threads after_stuck_ex ! 0)) \<and>
   \<not> executing 0 (threads after_stuck_ex ! 0)"
proof -
  have r: "reachable B_ex null_front_ex"
    unfolding null_front_ex_def using initial_ex2 by (rule reachable_run)
  have a: "0 < length (threads null_front_ex)"
    "cont (threads null_front_ex ! 0) = RunLoop 0 # [LeaveStrand, WqLoop, LeaveWq]"
    "q (m_data (sh null_front_ex) 0) = None # [Some 2]"
    by (simp_all add: null_front_ex_def ex2_def ev)
  from empty_handler_sticks [OF r a] obtain st1 where
    step: "step B_ex 0 null_front_ex = Next st1" and
    now: "cont (threads st1 ! 0) = [LeaveStrand, WqLoop, LeaveWq]"
      "running (m_data (sh st1) 0)" "q (m_data (sh st1) 0) = [Some 2]" and
    later: "\<And>st2. reaches B_ex st1 st2 \<Longrightarrow>
        running (m_data (sh st2) 0) \<and>
        (\<exists>ys. q (m_data (sh st2) 0) = [Some 2] @ ys) \<and>
        DrainTask 0 \<notin> set (m_q (sh st2)) \<and>
        (\<forall>t2 < length (threads st2).
           \<not> owns 0 (cont (threads st2 ! t2)) \<and> \<not> executing 0 (threads st2 ! t2))"
    by blast
  have st1: "stuck_ex = st1"
    by (simp add: stuck_ex_def step)
  have reach: "reaches B_ex stuck_ex after_stuck_ex"
    unfolding after_stuck_ex_def by (rule reaches_run)
  have n: "0 < length (threads after_stuck_ex)"
    by (simp add: after_stuck_ex_def stuck_ex_def null_front_ex_def ex2_def ev)
  from later [of after_stuck_ex] reach n step now r a
  show ?thesis unfolding st1 by blast
qed

section \<open>Further properties\<close>

text \<open>
  One round of the loop of \<open>Strand::run\<close>, in a state a run reaches. With a closure at
  the front of the queue, the step pops it; the thread then calls it and comes back to the
  head of the loop. With the queue empty, the step clears the flag and \<open>run\<close> returns. So
  when \<open>run\<close> returns and the queue did not start with an empty function, the flag is
  clear and the queue is empty.
\<close>

theorem drain_round:
  assumes "reachable B st"
    and "t < length (threads st)"
    and "cont (threads st ! t) = RunLoop s # c"
  shows
    "(q (m_data (sh st) s) = Some f # qs \<longrightarrow>
        step B t st = Next
          \<lparr>sh = set_data s ((m_data (sh st) s)\<lparr>q := qs\<rparr>) (sh st),
           threads = (threads st)[t := (threads st ! t)
             \<lparr>cont := Invoke s (Some f) # RunLoop s # c\<rparr>]\<rparr> \<and>
        run B [t, t] st =
          \<lparr>sh = set_data s ((m_data (sh st) s)\<lparr>q := qs\<rparr>) (sh st),
           threads = (threads st)[t := (threads st ! t)
             \<lparr>cont := map Cmd (B f) @ Ret s # RunLoop s # c\<rparr>]\<rparr>) \<and>
     (q (m_data (sh st) s) = [] \<longrightarrow>
        step B t st = Next
          \<lparr>sh = set_data s ((m_data (sh st) s)\<lparr>running := False\<rparr>) (sh st),
           threads = (threads st)[t := (threads st ! t)\<lparr>cont := c\<rparr>]\<rparr>) \<and>
     (\<forall>st1. step B t st = Next st1 \<and> cont (threads st1 ! t) = c \<and>
            (\<forall>qs. q (m_data (sh st) s) \<noteq> None # qs) \<longrightarrow>
        \<not> running (m_data (sh st1) s) \<and> q (m_data (sh st1) s) = [])"
proof -
  have run: "running (m_data (sh st) s)"
    using invariant_reachable [OF assms(1)] assms(2,3) invariant_owns_running [of st t s]
    by simp
  have "step B t st = Next
          \<lparr>sh = set_data s ((m_data (sh st) s)\<lparr>q := qs\<rparr>) (sh st),
           threads = (threads st)[t := (threads st ! t)
             \<lparr>cont := Invoke s (Some f) # RunLoop s # c\<rparr>]\<rparr> \<and>
        run B [t, t] st =
          \<lparr>sh = set_data s ((m_data (sh st) s)\<lparr>q := qs\<rparr>) (sh st),
           threads = (threads st)[t := (threads st ! t)
             \<lparr>cont := map Cmd (B f) @ Ret s # RunLoop s # c\<rparr>]\<rparr>"
    if "q (m_data (sh st) s) = Some f # qs"
  proof -
    have one: "step B t st = Next
          \<lparr>sh = set_data s ((m_data (sh st) s)\<lparr>q := qs\<rparr>) (sh st),
           threads = (threads st)[t := (threads st ! t)
             \<lparr>cont := Invoke s (Some f) # RunLoop s # c\<rparr>]\<rparr>"
      using assms(2,3) run that by (simp add: step_def exec_def run_txn_def)
    show ?thesis
      using assms(2) by (simp add: one) (simp add: step_def exec_def)
  qed
  moreover have "step B t st = Next
          \<lparr>sh = set_data s ((m_data (sh st) s)\<lparr>running := False\<rparr>) (sh st),
           threads = (threads st)[t := (threads st ! t)\<lparr>cont := c\<rparr>]\<rparr>"
    if "q (m_data (sh st) s) = []"
    using assms(2,3) run that by (simp add: step_def exec_def run_txn_def)
  moreover have "\<not> running (m_data (sh st1) s) \<and> q (m_data (sh st1) s) = []"
    if "step B t st = Next st1" "cont (threads st1 ! t) = c"
      "\<forall>qs. q (m_data (sh st) s) \<noteq> None # qs" for st1
  proof (cases "q (m_data (sh st) s)")
    case Nil
    with that(1) assms(2,3) run show ?thesis
      by (auto simp: step_def exec_def run_txn_def set_data_def)
  next
    case (Cons h qs)
    with that(3) obtain f where "h = Some f" by (cases h) auto
    with Cons that(1,2) assms(2,3) run show ?thesis
      by (auto simp: step_def exec_def run_txn_def)
  qed
  ultimately show ?thesis by blast
qed

theorem drain_round_witness:
  "reachable B_ex draining_ex \<and>
   0 < length (threads draining_ex) \<and>
   cont (threads draining_ex ! 0) = RunLoop 0 # [LeaveStrand, WqLoop, LeaveWq] \<and>
   q (m_data (sh draining_ex) 0) = Some 2 # [] \<and>
   cont (threads (run B_ex [0] draining_ex) ! 0) =
     [Invoke 0 (Some 2), RunLoop 0, LeaveStrand, WqLoop, LeaveWq] \<and>
   cont (threads (run B_ex [0, 0] draining_ex) ! 0) =
     [Cmd (Dispatch 0 (Some 3)), Ret 0, RunLoop 0, LeaveStrand, WqLoop, LeaveWq] \<and>
   q (m_data (sh (run B_ex [0, 0] draining_ex)) 0) = [] \<and>
   reachable B_ex drained_ex \<and>
   0 < length (threads drained_ex) \<and>
   cont (threads drained_ex ! 0) = RunLoop 0 # [LeaveStrand, WqLoop, LeaveWq] \<and>
   q (m_data (sh drained_ex) 0) = [] \<and>
   step B_ex 0 drained_ex = Next (run B_ex [0] drained_ex) \<and>
   cont (threads (run B_ex [0] drained_ex) ! 0) = [LeaveStrand, WqLoop, LeaveWq] \<and>
   \<not> running (m_data (sh (run B_ex [0] drained_ex)) 0) \<and>
   q (m_data (sh (run B_ex [0] drained_ex)) 0) = []"
proof -
  let ?c = "[LeaveStrand, WqLoop, LeaveWq]"
  have r1: "reachable B_ex draining_ex"
    unfolding draining_ex_def using initial_ex1 by (rule reachable_run)
  have a1: "0 < length (threads draining_ex)"
    "cont (threads draining_ex ! 0) = RunLoop 0 # ?c"
    and q1: "q (m_data (sh draining_ex) 0) = Some 2 # []"
    by (simp_all add: draining_ex_def ev)
  have r2: "reachable B_ex drained_ex"
    unfolding drained_ex_def using initial_ex1 by (rule reachable_run)
  have a2: "0 < length (threads drained_ex)"
    "cont (threads drained_ex ! 0) = RunLoop 0 # ?c"
    and q2: "q (m_data (sh drained_ex) 0) = []"
    by (simp_all add: drained_ex_def ev)
  note one = drain_round [OF r1 a1, where f = 2 and qs = "[]", THEN conjunct1]
  note two = drain_round [OF r2 a2, where f = 2 and qs = "[]", THEN conjunct2]
  from one q1 have
    e1: "step B_ex 0 draining_ex = Next
          \<lparr>sh = set_data 0 ((m_data (sh draining_ex) 0)\<lparr>q := []\<rparr>) (sh draining_ex),
           threads = (threads draining_ex)[0 := (threads draining_ex ! 0)
             \<lparr>cont := Invoke 0 (Some 2) # RunLoop 0 # ?c\<rparr>]\<rparr>" and
    e2: "run B_ex [0, 0] draining_ex =
          \<lparr>sh = set_data 0 ((m_data (sh draining_ex) 0)\<lparr>q := []\<rparr>) (sh draining_ex),
           threads = (threads draining_ex)[0 := (threads draining_ex ! 0)
             \<lparr>cont := map Cmd (B_ex 2) @ Ret 0 # RunLoop 0 # ?c\<rparr>]\<rparr>"
    by blast+
  have "cont (threads (run B_ex [0] draining_ex) ! 0) = [Invoke 0 (Some 2), RunLoop 0] @ ?c"
    using a1(1) by (simp add: e1)
  moreover have "cont (threads (run B_ex [0, 0] draining_ex) ! 0) =
       [Cmd (Dispatch 0 (Some 3)), Ret 0, RunLoop 0] @ ?c"
    "q (m_data (sh (run B_ex [0, 0] draining_ex)) 0) = []"
    using a1(1) by (simp_all add: e2 B_ex_def set_data_def del: run.simps)
  moreover from two [THEN conjunct1] q2 have
    s: "step B_ex 0 drained_ex = Next (run B_ex [0] drained_ex)"
    by simp
  moreover from s a2(1) two [THEN conjunct1] q2 have
    "cont (threads (run B_ex [0] drained_ex) ! 0) = ?c"
    by simp
  moreover from this s two [THEN conjunct2] q2 have
    "\<not> running (m_data (sh (run B_ex [0] drained_ex)) 0) \<and>
     q (m_data (sh (run B_ex [0] drained_ex)) 0) = []"
    by (simp del: run.simps)
  ultimately show ?thesis
    using r1 a1 q1 r2 a2 q2 by (simp del: run.simps)
qed

text \<open>
  In every state a run reaches, a thread that is executing a handler of a strand is
  inside \<open>WorkQueue::run\<close> of the work queue the strand is bound to.
\<close>

theorem handlers_run_in_processor:
  assumes "reachable B st" "t < length (threads st)" "executing s (threads st ! t)"
  shows "canDispatch (threads st ! t)"
  using invariant_thread [OF invariant_reachable [OF assms(1)] assms(2)] assms(3)
  by (auto simp: thread_ok_def executing_def canDispatch_def intro: ctx_executing)

theorem handlers_run_in_processor_witness:
  "reachable B_ex in_handler_ex \<and>
   0 < length (threads in_handler_ex) \<and>
   executing 0 (threads in_handler_ex ! 0) \<and>
   canDispatch (threads in_handler_ex ! 0)"
proof -
  have r: "reachable B_ex in_handler_ex"
    unfolding in_handler_ex_def using initial_ex1 by (rule reachable_run)
  have c: "cont (threads in_handler_ex ! 0) =
      [Cmd (Dispatch 0 (Some 3)), Ret 0, RunLoop 0, LeaveStrand, WqLoop, LeaveWq]"
    and n: "0 < length (threads in_handler_ex)"
    by (simp_all add: in_handler_ex_def ev)
  have e: "executing 0 (threads in_handler_ex ! 0)"
    by (simp add: executing_def c)
  from handlers_run_in_processor [OF r n e] r n e show ?thesis by simp
qed

text \<open>
  The claim step of \<open>dispatch\<close>: from a thread inside the work queue's \<open>run\<close> that is not
  running the strand, \<open>dispatch(handler)\<close> takes one atomic step on the strand's data. If the
  flag is set, the step appends the handler to the queue and \<open>dispatch\<close> returns. If the
  flag is clear, the step sets it and leaves the queue alone; the thread has entered the
  strand's call context and has the call of the handler, the call of \<open>run\<close> and the exit of
  the call context before it, in this order; its next step starts the body of a non-empty
  handler.
\<close>

theorem dispatch_claim_step:
  assumes "t < length (threads st)"
    and "cont (threads st ! t) = Cmd (Dispatch s h) # c"
    and "canDispatch (threads st ! t)"
    and "\<not> runningInThisThread s (threads st ! t)"
  shows "step B t st = Next
     (if running (m_data (sh st) s)
      then \<lparr>sh = set_data s ((m_data (sh st) s)\<lparr>q := q (m_data (sh st) s) @ [h]\<rparr>) (sh st),
            threads = (threads st)[t := (threads st ! t)\<lparr>cont := c\<rparr>]\<rparr>
      else \<lparr>sh = set_data s ((m_data (sh st) s)\<lparr>running := True\<rparr>) (sh st),
            threads = (threads st)[t := (threads st ! t)
              \<lparr>cont := Invoke s h # Run s # LeaveStrand # c,
               strand_ctx := s # strand_ctx (threads st ! t)\<rparr>]\<rparr>) \<and>
     (\<not> running (m_data (sh st) s) \<longrightarrow>
        (\<forall>f. h = Some f \<longrightarrow>
           run B [t, t] st =
             \<lparr>sh = set_data s ((m_data (sh st) s)\<lparr>running := True\<rparr>) (sh st),
              threads = (threads st)[t := (threads st ! t)
                \<lparr>strand_ctx := s # strand_ctx (threads st ! t),
                 cont := map Cmd (B f) @ Ret s # Run s # LeaveStrand # c\<rparr>]\<rparr>))"
proof -
  have one: "step B t st = Next
     (if running (m_data (sh st) s)
      then \<lparr>sh = set_data s ((m_data (sh st) s)\<lparr>q := q (m_data (sh st) s) @ [h]\<rparr>) (sh st),
            threads = (threads st)[t := (threads st ! t)\<lparr>cont := c\<rparr>]\<rparr>
      else \<lparr>sh = set_data s ((m_data (sh st) s)\<lparr>running := True\<rparr>) (sh st),
            threads = (threads st)[t := (threads st ! t)
              \<lparr>cont := Invoke s h # Run s # LeaveStrand # c,
               strand_ctx := s # strand_ctx (threads st ! t)\<rparr>]\<rparr>)"
    using assms by (simp add: step_def exec_def dispatch_txn_def Callstack_enter_def)
  show ?thesis
    using assms(1) by (simp add: one) (simp add: step_def exec_def)
qed

theorem dispatch_claim_step_witness:
  "0 < length (threads at_dispatch_ex) \<and>
   cont (threads at_dispatch_ex ! 0) = Cmd (Dispatch 0 (Some 3)) # [WqLoop, LeaveWq] \<and>
   canDispatch (threads at_dispatch_ex ! 0) \<and>
   \<not> runningInThisThread 0 (threads at_dispatch_ex ! 0) \<and>
   \<not> running (m_data (sh at_dispatch_ex) 0) \<and>
   step B_ex 0 at_dispatch_ex = Next
     \<lparr>sh = \<lparr>m_data = (\<lambda>_. idle)(0 := \<lparr>running = True, q = []\<rparr>), m_q = []\<rparr>,
      threads = [\<lparr>cont = [Invoke 0 (Some 3), Run 0, LeaveStrand, WqLoop, LeaveWq],
                  strand_ctx = [0], wq_ctx = [the_wq]\<rparr>]\<rparr> \<and>
   run B_ex [0, 0] at_dispatch_ex =
     \<lparr>sh = \<lparr>m_data = (\<lambda>_. idle)(0 := \<lparr>running = True, q = []\<rparr>), m_q = []\<rparr>,
      threads = [\<lparr>cont = [Ret 0, Run 0, LeaveStrand, WqLoop, LeaveWq],
                  strand_ctx = [0], wq_ctx = [the_wq]\<rparr>]\<rparr> \<and>
   0 < length (threads at_dispatch_busy_ex) \<and>
   cont (threads at_dispatch_busy_ex ! 0) = Cmd (Dispatch 0 (Some 3)) # [WqLoop, LeaveWq] \<and>
   canDispatch (threads at_dispatch_busy_ex ! 0) \<and>
   \<not> runningInThisThread 0 (threads at_dispatch_busy_ex ! 0) \<and>
   step B_ex 0 at_dispatch_busy_ex = Next
     \<lparr>sh = \<lparr>m_data = (\<lambda>_. idle)(0 := \<lparr>running = True, q = [Some 2, Some 3]\<rparr>), m_q = []\<rparr>,
      threads = [\<lparr>cont = [WqLoop, LeaveWq], strand_ctx = [], wq_ctx = [the_wq]\<rparr>]\<rparr>"
proof -
  have a: "0 < length (threads at_dispatch_ex)"
    "cont (threads at_dispatch_ex ! 0) = Cmd (Dispatch 0 (Some 3)) # [WqLoop, LeaveWq]"
    "canDispatch (threads at_dispatch_ex ! 0)"
    "\<not> runningInThisThread 0 (threads at_dispatch_ex ! 0)"
    and na: "\<not> running (m_data (sh at_dispatch_ex) 0)"
    by (simp_all add: at_dispatch_ex_def canDispatch_def runningInThisThread_def
        Callstack_contains_def idle_def)
  have b: "0 < length (threads at_dispatch_busy_ex)"
    "cont (threads at_dispatch_busy_ex ! 0) = Cmd (Dispatch 0 (Some 3)) # [WqLoop, LeaveWq]"
    "canDispatch (threads at_dispatch_busy_ex ! 0)"
    "\<not> runningInThisThread 0 (threads at_dispatch_busy_ex ! 0)"
    by (simp_all add: at_dispatch_busy_ex_def canDispatch_def runningInThisThread_def
        Callstack_contains_def)
  note ia = dispatch_claim_step [OF a, of B_ex]
  note ib = dispatch_claim_step [OF b, of B_ex]
  have "step B_ex 0 at_dispatch_ex = Next
     \<lparr>sh = \<lparr>m_data = (\<lambda>_. idle)(0 := \<lparr>running = True, q = []\<rparr>), m_q = []\<rparr>,
      threads = [\<lparr>cont = [Invoke 0 (Some 3), Run 0, LeaveStrand, WqLoop, LeaveWq],
                  strand_ctx = [0], wq_ctx = [the_wq]\<rparr>]\<rparr>"
    using ia [THEN conjunct1]
    by (simp add: at_dispatch_ex_def set_data_def idle_def)
  moreover have "run B_ex [0, 0] at_dispatch_ex =
     \<lparr>sh = \<lparr>m_data = (\<lambda>_. idle)(0 := \<lparr>running = True, q = []\<rparr>), m_q = []\<rparr>,
      threads = [\<lparr>cont = [Ret 0, Run 0, LeaveStrand, WqLoop, LeaveWq],
                  strand_ctx = [0], wq_ctx = [the_wq]\<rparr>]\<rparr>"
    using ia [THEN conjunct2] na
    by (simp add: at_dispatch_ex_def set_data_def idle_def B_ex_def del: run.simps)
  moreover have "step B_ex 0 at_dispatch_busy_ex = Next
     \<lparr>sh = \<lparr>m_data = (\<lambda>_. idle)(0 := \<lparr>running = True, q = [Some 2, Some 3]\<rparr>), m_q = []\<rparr>,
      threads = [\<lparr>cont = [WqLoop, LeaveWq], strand_ctx = [], wq_ctx = [the_wq]\<rparr>]\<rparr>"
    using ib [THEN conjunct1]
    by (simp add: at_dispatch_busy_ex_def set_data_def idle_def)
  ultimately show ?thesis using a na b by (simp del: run.simps)
qed

end
